theory Spec2Isabelle
  imports Main "HOL-Library.AList"
begin

section \<open>SketchUpNET: the scene graph and the operations of class SketchUp\<close>

text \<open>
  The development follows \<^verbatim>\<open>src/SketchUpNET/SketchUpNET.cpp\<close>. The class
  \<^verbatim>\<open>SketchUp\<close> loads a model through the SketchUp C API, links every component
  instance to its definition (\<^verbatim>\<open>FixRefs\<close>), optionally pushes group materials
  down (\<^verbatim>\<open>FixMaterialRefs\<close>), and writes models back.

  The C API and the converters \<^verbatim>\<open>Material::FromSU\<close>, \<^verbatim>\<open>Group::FromSU\<close>,
  \<^verbatim>\<open>Component::FromSU\<close>, ... are not part of the sources. What they deliver for a
  file is an input of the model (record \<open>SUFile\<close> below); the calls made to the API are
  an output (a list of \<open>api_call\<close>).
\<close>

subsection \<open>Entities\<close>

text \<open>
  A material is identified by its name; the empty name is the "unset" value that
  \<^verbatim>\<open>FixMaterialRefs\<close> tests for. Colour, opacity and texture are one opaque value
  here: no operation of the class reads them.
\<close>

record Material =
  Name :: string
  Appearance :: nat

text \<open>
  An instance carries the identifier \<open>ParentID\<close> of the definition it places and the
  mutable link \<open>Parent\<close>. The link is a reference to a \<^verbatim>\<open>Component\<close> object; every
  component object the class ever assigns to it is an entry of the \<open>Components\<close>
  dictionary, so the reference is modelled by the key of that entry, and null by \<open>None\<close>.
\<close>

record Instance =
  ParentID :: string
  Parent :: "string option"

record Component =
  Guid :: string
  Instances :: "Instance list"

record Surface =
  FrontMaterial :: Material
  BackMaterial :: Material

datatype Group =
  Group (Material: Material) (Groups: "Group list") (Surfaces: "Surface list")
    (Instances: "Instance list")

text \<open>
  Layers, curves and edges are passed through unread: each is the converted object,
  told apart by a number.
\<close>

datatype Layer = Layer nat
datatype Curve = Curve nat
datatype Edge = Edge nat

text \<open>
  A \<^verbatim>\<open>Dictionary<String, T>\<close> is an association list in insertion order (the order
  its enumerator yields when nothing was removed). \<open>Add\<close> throws on a key that is present.
\<close>

datatype exn = ArgumentException | StackOverflowException

type_synonym 'v Dictionary = "(string \<times> 'v) list"

definition ContainsKey :: "'v Dictionary \<Rightarrow> string \<Rightarrow> bool" where
  "ContainsKey D k = (k \<in> fst ` set D)"

definition Add :: "'v Dictionary \<Rightarrow> string \<Rightarrow> 'v \<Rightarrow> exn + 'v Dictionary" where
  "Add D k v = (if ContainsKey D k then Inl ArgumentException else Inr (D @ [(k, v)]))"

text \<open>
  The public fields of class \<^verbatim>\<open>SketchUp\<close> (lines 74 to 114). A field holds a list or
  a dictionary, never null; so do the fields of the entities, and a material slot always
  holds a material (the unset one has the empty name), as the tests on
  \<^verbatim>\<open>Material->Name\<close> in \<^verbatim>\<open>FixMaterialRefs\<close> presume.
\<close>

record SketchUp =
  Surfaces :: "Surface list"
  Layers :: "Layer list"
  Groups :: "Group list"
  Components :: "Component Dictionary"
  Materials :: "Material Dictionary"
  Instances :: "Instance list"
  Curves :: "Curve list"
  Edges :: "Edge list"
  MoreRecentFileVersion :: bool

subsection \<open>The external library\<close>

datatype SKPVersion = V2013 | V2014 | V2015 | V2016 | V2017 | V2018 | V2019 | V2020 | V2021

datatype SUModelVersion =
  SUModelVersion_SU2013 | SUModelVersion_SU2014 | SUModelVersion_SU2015
  | SUModelVersion_SU2016 | SUModelVersion_SU2017 | SUModelVersion_SU2018
  | SUModelVersion_SU2019 | SUModelVersion_SU2020 | SUModelVersion_SU2021

text \<open>
  Modelled from the spec: the header declaring \<^verbatim>\<open>SUModelLoadStatus\<close> is not among the
  sources, which name only the value \<^verbatim>\<open>SUModelLoadStatus_Success_MoreRecent\<close>. Section 6
  of the specification describes the signal as success, success but written by a newer
  tool version, or one of the failure kinds invalid path, corrupt file, unsupported format.
\<close>

datatype load_failure = InvalidPath | CorruptFile | UnsupportedFormat

datatype SUModelLoadStatus =
  SUModelLoadStatus_Success
  | SUModelLoadStatus_Success_MoreRecent
  | SUModelLoadStatus_Failure load_failure

text \<open>
  Modelled from the spec: \<^verbatim>\<open>SUResult\<close> is declared by the external library too;
  the sources compare it with \<^verbatim>\<open>SU_ERROR_NONE\<close> only.
\<close>

datatype SUResult = SU_ERROR_NONE | SU_ERROR_OTHER

text \<open>
  What the library and the \<^verbatim>\<open>FromSU\<close> converters deliver for the file at a path:
  the status written by \<^verbatim>\<open>SUModelCreateFromFileWithStatus\<close> and the converted entity
  tables in the order the getters return them.
\<close>

record SUFile =
  load_status :: SUModelLoadStatus
  su_materials :: "Material list"
  su_layers :: "Layer list"
  su_groups :: "Group list"
  su_definitions :: "Component list"
  su_surfaces :: "Surface list"
  su_curves :: "Curve list"
  su_edges :: "Edge list"
  su_instances :: "Instance list"

text \<open>
  The calls an operation makes that open, write or close something, and the call that
  fetches the entities of the opened model, in program order. The getters that only count
  or read entities are not listed.
\<close>

datatype api_call =
  SUInitialize
  | SUModelCreateFromFileWithStatus
  | SUModelCreate
  | SUModelGetEntities
  | SUEntitiesAddFaces nat
  | SUEntitiesAddEdges nat
  | SUEntitiesAddCurves nat
  | SUModelSaveToFile
  | SUModelSaveToFileWithVersion SUModelVersion
  | SUModelRelease
  | SUTerminate

text \<open>
  A call of a public method that returns: the returned boolean, the fields of the object
  afterwards, and the API calls made.
\<close>

record Run =
  returned :: bool
  object :: SketchUp
  api_calls :: "api_call list"

subsection \<open>ToSUVersion, SaveAs, AppendToModel, WriteNewModel\<close>

fun ToSUVersion :: "SKPVersion \<Rightarrow> SUModelVersion" where
  "ToSUVersion V2013 = SUModelVersion_SU2013"
| "ToSUVersion V2014 = SUModelVersion_SU2014"
| "ToSUVersion V2015 = SUModelVersion_SU2015"
| "ToSUVersion V2016 = SUModelVersion_SU2016"
| "ToSUVersion V2017 = SUModelVersion_SU2017"
| "ToSUVersion V2018 = SUModelVersion_SU2018"
| "ToSUVersion V2019 = SUModelVersion_SU2019"
| "ToSUVersion V2020 = SUModelVersion_SU2020"
| "ToSUVersion V2021 = SUModelVersion_SU2021"

text \<open>
  \<^verbatim>\<open>SaveAs\<close> (lines 269 to 290): \<open>file\<close> is what the library delivers for
  \<^verbatim>\<open>filename\<close>. The status is copied into the flag; nothing else is tested.
\<close>

definition SaveAs :: "SUFile \<Rightarrow> SKPVersion \<Rightarrow> SketchUp \<Rightarrow> Run" where
  "SaveAs file version this =
     \<lparr>returned = True,
      object = this\<lparr>MoreRecentFileVersion :=
        (load_status file = SUModelLoadStatus_Success_MoreRecent)\<rparr>,
      api_calls = [SUInitialize, SUModelCreateFromFileWithStatus,
        SUModelSaveToFileWithVersion (ToSUVersion version), SUModelRelease, SUTerminate]\<rparr>"

text \<open>\<^verbatim>\<open>AppendToModel\<close> (lines 296 to 327).\<close>

definition AppendToModel :: "SUFile \<Rightarrow> SketchUp \<Rightarrow> Run" where
  "AppendToModel file this =
     \<lparr>returned = True,
      object = this\<lparr>MoreRecentFileVersion :=
        (load_status file = SUModelLoadStatus_Success_MoreRecent)\<rparr>,
      api_calls = [SUInitialize, SUModelCreateFromFileWithStatus, SUModelGetEntities,
        SUEntitiesAddFaces (length (SketchUp.Surfaces this)),
        SUEntitiesAddEdges (length (Edges this)),
        SUEntitiesAddCurves (length (Curves this)),
        SUModelSaveToFile, SUModelRelease, SUTerminate]\<rparr>"

text \<open>
  \<^verbatim>\<open>WriteNewModel\<close> (lines 345 to 367): \<open>res\<close> is the result of
  \<^verbatim>\<open>SUModelCreate\<close>. The early return at line 351 comes before any other call.
\<close>

definition WriteNewModel :: "SUResult \<Rightarrow> SKPVersion \<Rightarrow> SketchUp \<Rightarrow> Run" where
  "WriteNewModel res version this =
     (if res \<noteq> SU_ERROR_NONE
      then \<lparr>returned = False, object = this, api_calls = [SUInitialize, SUModelCreate]\<rparr>
      else \<lparr>returned = True, object = this,
        api_calls = [SUInitialize, SUModelCreate, SUModelGetEntities,
          SUEntitiesAddFaces (length (SketchUp.Surfaces this)),
          SUEntitiesAddEdges (length (Edges this)),
          SUEntitiesAddCurves (length (Curves this)),
          SUModelSaveToFileWithVersion (ToSUVersion version), SUModelRelease, SUTerminate]\<rparr>)"

subsection \<open>FixMaterialRefs\<close>

text \<open>
  \<^verbatim>\<open>FixMaterialRefs\<close> (lines 396 to 414). The groups of a model form a tree of
  freshly created objects, so the in-place update is a function from the group to the
  updated group. \<open>FixMaterialRefs_Groups\<close> is the first loop, over \<^verbatim>\<open>grp->Groups\<close>:
  the child's material is replaced when its name is empty, then the child is processed
  with its own (possibly new) material. \<open>FixMaterialRefs_Surface\<close> is the body of the
  second loop.
\<close>

definition FixMaterialRefs_Surface :: "Material \<Rightarrow> Surface \<Rightarrow> Surface" where
  "FixMaterialRefs_Surface parentMaterial s =
     (let s1 = (if Name (FrontMaterial s) = [] then s\<lparr>FrontMaterial := parentMaterial\<rparr> else s)
      in (if Name (BackMaterial s1) = [] then s1\<lparr>BackMaterial := parentMaterial\<rparr> else s1))"

fun FixMaterialRefs :: "Group \<Rightarrow> Group"
  and FixMaterialRefs_Groups :: "Material \<Rightarrow> Group list \<Rightarrow> Group list" where
  "FixMaterialRefs (Group m gs ss is) =
     Group m (FixMaterialRefs_Groups m gs) (map (FixMaterialRefs_Surface m) ss) is"
| "FixMaterialRefs_Groups parentMaterial [] = []"
| "FixMaterialRefs_Groups parentMaterial (Group m gs ss is # rest) =
     FixMaterialRefs (Group (if Name m = [] then parentMaterial else m) gs ss is)
       # FixMaterialRefs_Groups parentMaterial rest"

subsection \<open>FixRefs\<close>

text \<open>
  The component objects live in the \<open>Components\<close> dictionary, and \<^verbatim>\<open>FixRefs\<close>
  writes to the instances they own while it recurses through the same dictionary. The
  dictionary is therefore the store: a component object is named by its key, and
  \<open>set_Parent C g i k\<close> is the assignment \<^verbatim>\<open>var->Parent = Components[k]\<close> for the
  \<open>i\<close>-th instance \<^verbatim>\<open>var\<close> of the component stored under \<open>g\<close>.
\<close>

definition Instances_of :: "Component Dictionary \<Rightarrow> string \<Rightarrow> Instance list" where
  "Instances_of C g = (case map_of C g of None \<Rightarrow> [] | Some cmp \<Rightarrow> Component.Instances cmp)"

definition set_Parent :: "Component Dictionary \<Rightarrow> string \<Rightarrow> nat \<Rightarrow> string \<Rightarrow> Component Dictionary" where
  "set_Parent C g i k =
     AList.map_entry g
       (\<lambda>c. c\<lparr>Component.Instances :=
              (Component.Instances c)[i := (Component.Instances c ! i)\<lparr>Parent := Some k\<rparr>]\<rparr>) C"

text \<open>
  A \<^verbatim>\<open>for each\<close> loop whose body may throw. Besides the state, a body returns the
  definitions whose instance lists it expanded; the loop concatenates them. This list is
  an observation added to the model (the program keeps no such list): it records, in
  order, every activation of \<^verbatim>\<open>FixRefs(Component^)\<close>.
\<close>

fun foreach :: "'a list \<Rightarrow> ('a \<Rightarrow> 's \<Rightarrow> exn + ('s \<times> string list)) \<Rightarrow> 's \<Rightarrow> exn + ('s \<times> string list)" where
  "foreach [] body s = Inr (s, [])"
| "foreach (x # xs) body s =
     (case body x s of
        Inl e \<Rightarrow> Inl e
      | Inr (s', log) \<Rightarrow>
          (case foreach xs body s' of
             Inl e \<Rightarrow> Inl e
           | Inr (s'', log') \<Rightarrow> Inr (s'', log @ log')))"

text \<open>
  \<^verbatim>\<open>FixRefs(Component^ comp)\<close> (lines 416 to 428), for the component stored under
  \<open>g\<close>. The recursion is unconditional, so it need not end: \<open>depth\<close> is the number of
  nested activations the stack still has room for, and an activation with no room left
  is the \<^verbatim>\<open>StackOverflowException\<close> that ends the process. The loop runs over the
  positions of \<^verbatim>\<open>comp->Instances\<close> and reads the instance at each position from the
  current store, since activations further down may have written to it.
\<close>

fun FixRefs :: "nat \<Rightarrow> Component Dictionary \<Rightarrow> string \<Rightarrow> exn + (Component Dictionary \<times> string list)" where
  "FixRefs 0 C g = Inl StackOverflowException"
| "FixRefs (Suc depth) C g =
     (case foreach [0..<length (Instances_of C g)]
        (\<lambda>i C. let var = Instances_of C g ! i in
           if ContainsKey C (ParentID var)
           then FixRefs depth (set_Parent C g i (ParentID var)) (ParentID var)
           else Inr (C, [])) C of
        Inl e \<Rightarrow> Inl e
      | Inr (C', log) \<Rightarrow> Inr (C', g # log))"

text \<open>
  \<^verbatim>\<open>FixRefs(Group^ comp)\<close> (lines 430 to 442). Only the group's own instances are
  visited; the group is not in the store, so it is passed and returned beside it.
\<close>

definition set_Parent_Group :: "Group \<Rightarrow> nat \<Rightarrow> string \<Rightarrow> Group" where
  "set_Parent_Group grp i k =
     Group (Group.Material grp) (Group.Groups grp) (Group.Surfaces grp)
       ((Group.Instances grp)[i := (Group.Instances grp ! i)\<lparr>Parent := Some k\<rparr>])"

fun FixRefs_Group :: "nat \<Rightarrow> Component Dictionary \<Rightarrow> Group \<Rightarrow> exn + ((Component Dictionary \<times> Group) \<times> string list)" where
  "FixRefs_Group 0 C grp = Inl StackOverflowException"
| "FixRefs_Group (Suc depth) C grp =
     foreach [0..<length (Group.Instances grp)]
       (\<lambda>i (C, grp). let var = Group.Instances grp ! i in
          if ContainsKey C (ParentID var)
          then (let grp' = set_Parent_Group grp i (ParentID var) in
                case FixRefs depth C (ParentID var) of
                  Inl e \<Rightarrow> Inl e
                | Inr (C', log) \<Rightarrow> Inr ((C', grp'), log))
          else Inr ((C, grp), [])) (C, grp)"

subsection \<open>LoadModel\<close>

text \<open>
  The loop over the materials (lines 177 to 181), which adds a material only when its
  name is not a key yet, and the loop over the definitions (lines 222 to 225), which adds
  every definition under its \<open>Guid\<close> and so throws when an identifier repeats.
\<close>

fun LoadModel_Materials :: "Material list \<Rightarrow> Material Dictionary \<Rightarrow> exn + Material Dictionary" where
  "LoadModel_Materials [] M = Inr M"
| "LoadModel_Materials (mat # rest) M =
     (if \<not> ContainsKey M (Name mat)
      then (case Add M (Name mat) mat of
              Inl e \<Rightarrow> Inl e
            | Inr M' \<Rightarrow> LoadModel_Materials rest M')
      else LoadModel_Materials rest M)"

fun LoadModel_Definitions :: "Component list \<Rightarrow> Component Dictionary \<Rightarrow> exn + Component Dictionary" where
  "LoadModel_Definitions [] C = Inr C"
| "LoadModel_Definitions (component # rest) C =
     (case Add C (Guid component) component of
        Inl e \<Rightarrow> Inl e
      | Inr C' \<Rightarrow> LoadModel_Definitions rest C')"

text \<open>
  The three loops that link instances (lines 233 to 253): over the top-level instances,
  over the entries of \<open>Components\<close>, and over the top-level groups. The value of an
  entry is the object stored under its key (\<open>Add\<close> lets no key repeat), so the second
  loop hands the keys to \<open>FixRefs\<close> in the order of the entries; the activations change
  instances, never the entries of the dictionary, so the enumeration is not disturbed.
  \<open>LoadModel_FixRefs\<close> is the three loops in sequence on the fields of the object.
\<close>

definition LoadModel_Instances :: "Component Dictionary \<Rightarrow> Instance list \<Rightarrow> Instance list" where
  "LoadModel_Instances C insts =
     map (\<lambda>var. if ContainsKey C (ParentID var) then var\<lparr>Parent := Some (ParentID var)\<rparr> else var) insts"

definition LoadModel_Components :: "nat \<Rightarrow> Component Dictionary \<Rightarrow> exn + (Component Dictionary \<times> string list)" where
  "LoadModel_Components depth C = foreach (map fst C) (\<lambda>k C. FixRefs depth C k) C"

fun LoadModel_Groups :: "nat \<Rightarrow> bool \<Rightarrow> Group list \<Rightarrow> Component Dictionary \<Rightarrow> exn + ((Component Dictionary \<times> Group list) \<times> string list)" where
  "LoadModel_Groups depth inheritGroupMaterials [] C = Inr ((C, []), [])"
| "LoadModel_Groups depth inheritGroupMaterials (var # rest) C =
     (case FixRefs_Group depth C var of
        Inl e \<Rightarrow> Inl e
      | Inr ((C', var'), log) \<Rightarrow>
          (let var'' = (if inheritGroupMaterials then FixMaterialRefs var' else var') in
           case LoadModel_Groups depth inheritGroupMaterials rest C' of
             Inl e \<Rightarrow> Inl e
           | Inr ((C'', rest'), log') \<Rightarrow> Inr ((C'', var'' # rest'), log @ log')))"

definition LoadModel_FixRefs :: "nat \<Rightarrow> bool \<Rightarrow> SketchUp \<Rightarrow> exn + (SketchUp \<times> string list)" where
  "LoadModel_FixRefs depth inheritGroupMaterials this =
     (let this1 = this\<lparr>SketchUp.Instances :=
            LoadModel_Instances (Components this) (SketchUp.Instances this)\<rparr> in
      case LoadModel_Components depth (Components this1) of
        Inl e \<Rightarrow> Inl e
      | Inr (C', log) \<Rightarrow>
          (case LoadModel_Groups depth inheritGroupMaterials (SketchUp.Groups this1) C' of
             Inl e \<Rightarrow> Inl e
           | Inr ((C'', G), log') \<Rightarrow>
               Inr (this1\<lparr>Components := C'', SketchUp.Groups := G\<rparr>, log @ log')))"

text \<open>
  \<^verbatim>\<open>LoadModel\<close> (lines 143 to 260). \<open>file\<close> is what the library delivers for
  \<^verbatim>\<open>filename\<close>; \<^verbatim>\<open>includeMeshes\<close> is only handed to the converters and does not
  appear. The status is compared with one value and never tested again, and the only
  \<^verbatim>\<open>return\<close> statement returns \<^verbatim>\<open>true\<close>. A call that throws has no \<open>Run\<close>:
  the fields it assigned before the throw (the flag is the first of them) are not kept.
\<close>

definition LoadModel :: "nat \<Rightarrow> SUFile \<Rightarrow> bool \<Rightarrow> SketchUp \<Rightarrow> exn + Run" where
  "LoadModel depth file inheritGroupMaterials this =
     (let this1 = this\<lparr>MoreRecentFileVersion :=
            (load_status file = SUModelLoadStatus_Success_MoreRecent)\<rparr>;
          this2 = this1\<lparr>Layers := [], SketchUp.Groups := [], Components := [], Materials := []\<rparr>
      in case LoadModel_Materials (su_materials file) (Materials this2) of
        Inl e \<Rightarrow> Inl e
      | Inr M \<Rightarrow>
          (let this3 = this2\<lparr>Materials := M\<rparr>;
               this4 = this3\<lparr>Layers := fold (\<lambda>layer L. L @ [layer]) (su_layers file) (Layers this3)\<rparr>;
               this5 = this4\<lparr>SketchUp.Groups :=
                 fold (\<lambda>group G. G @ [group]) (su_groups file) (SketchUp.Groups this4)\<rparr>
           in case LoadModel_Definitions (su_definitions file) (Components this5) of
             Inl e \<Rightarrow> Inl e
           | Inr C \<Rightarrow>
               (let this6 = this5\<lparr>Components := C,
                      SketchUp.Surfaces := su_surfaces file, Curves := su_curves file,
                      Edges := su_edges file, SketchUp.Instances := su_instances file\<rparr>
                in case LoadModel_FixRefs depth inheritGroupMaterials this6 of
                  Inl e \<Rightarrow> Inl e
                | Inr (this7, log) \<Rightarrow>
                    Inr \<lparr>returned = True, object = this7,
                      api_calls = [SUInitialize, SUModelCreateFromFileWithStatus,
                        SUModelGetEntities, SUModelRelease, SUTerminate]\<rparr>)))"

subsection \<open>Restatements used in the proofs\<close>

text \<open>
  The loop bodies of the two \<^verbatim>\<open>FixRefs\<close> overloads as functions of their own (the
  lemmas \<open>FixRefs_Suc\<close> and \<open>FixRefs_Group_Suc\<close> show they are the bodies), the
  dictionary the loop over the definitions builds when no identifier repeats, and the
  object as \<^verbatim>\<open>LoadModel\<close> has filled it when line 233 is reached (lemma \<open>LoadModel_eq\<close>).
\<close>

definition FixRefs_body :: "nat \<Rightarrow> string \<Rightarrow> nat \<Rightarrow> Component Dictionary \<Rightarrow> exn + (Component Dictionary \<times> string list)" where
  "FixRefs_body depth g i C =
     (let var = Instances_of C g ! i in
      if ContainsKey C (ParentID var)
      then FixRefs depth (set_Parent C g i (ParentID var)) (ParentID var)
      else Inr (C, []))"

definition FixRefs_Group_body :: "nat \<Rightarrow> nat \<Rightarrow> Component Dictionary \<times> Group \<Rightarrow> exn + ((Component Dictionary \<times> Group) \<times> string list)" where
  "FixRefs_Group_body depth i = (\<lambda>(C, grp).
     let var = Group.Instances grp ! i in
     if ContainsKey C (ParentID var)
     then (let grp' = set_Parent_Group grp i (ParentID var) in
           case FixRefs depth C (ParentID var) of
             Inl e \<Rightarrow> Inl e
           | Inr (C', log) \<Rightarrow> Inr ((C', grp'), log))
     else Inr ((C, grp), []))"

definition dictionary_of :: "Component list \<Rightarrow> Component Dictionary" where
  "dictionary_of comps = map (\<lambda>c. (Guid c, c)) comps"

definition extracted :: "SUFile \<Rightarrow> Material Dictionary \<Rightarrow> Component Dictionary \<Rightarrow> SketchUp \<Rightarrow> SketchUp" where
  "extracted file M C this =
     this\<lparr>MoreRecentFileVersion := (load_status file = SUModelLoadStatus_Success_MoreRecent),
       Materials := M, Layers := su_layers file, SketchUp.Groups := su_groups file,
       Components := C, SketchUp.Surfaces := su_surfaces file, Curves := su_curves file,
       Edges := su_edges file, SketchUp.Instances := su_instances file\<rparr>"

subsection \<open>Notions used to state the properties of FixMaterialRefs\<close>

text \<open>
  \<open>with_Material\<close> is the first statement of the loop over \<^verbatim>\<open>grp->Groups\<close>.
  \<open>slots\<close> lists every material slot of a group tree in a fixed order. \<open>subgroup g p\<close>
  follows the child positions \<open>p\<close> down from \<open>g\<close>, \<open>chain g p\<close> lists the materials
  met on the way, outermost first, and \<open>nearest_explicit\<close> picks from such a chain the
  innermost material with a name, or the outermost material when none has one.
\<close>

definition with_Material :: "Material \<Rightarrow> Group \<Rightarrow> Group" where
  "with_Material parentMaterial g =
     (if Name (Group.Material g) = []
      then Group parentMaterial (Group.Groups g) (Group.Surfaces g) (Group.Instances g)
      else g)"

fun slots :: "Group \<Rightarrow> Material list" where
  "slots (Group m gs ss is) =
     m # concat (map slots gs) @ concat (map (\<lambda>s. [FrontMaterial s, BackMaterial s]) ss)"

fun subgroup :: "Group \<Rightarrow> nat list \<Rightarrow> Group option" where
  "subgroup g [] = Some g"
| "subgroup g (i # p) =
     (if i < length (Group.Groups g) then subgroup (Group.Groups g ! i) p else None)"

fun chain :: "Group \<Rightarrow> nat list \<Rightarrow> Material list" where
  "chain g [] = [Group.Material g]"
| "chain g (i # p) =
     Group.Material g # (if i < length (Group.Groups g) then chain (Group.Groups g ! i) p else [])"

definition nearest_explicit :: "Material list \<Rightarrow> Material" where
  "nearest_explicit ms =
     (case filter (\<lambda>m. Name m \<noteq> []) (rev ms) of [] \<Rightarrow> hd ms | m # _ \<Rightarrow> m)"

subsection \<open>Notions used to state the properties of FixRefs\<close>

text \<open>
  \<open>Keys\<close> is the key set of a dictionary. An instance is \<open>linked_to_definition\<close> when
  its \<open>Parent\<close> is the definition its \<open>ParentID\<close> names, provided there is one.
  \<open>link_step K old new\<close> is the only change \<^verbatim>\<open>FixRefs\<close> ever makes to an instance:
  none, or the link to the definition named by \<open>ParentID\<close>, which then is a key in \<open>K\<close>.
  \<open>unmatched_kept\<close> is its consequence for an instance that names no key.
\<close>

definition Keys :: "'v Dictionary \<Rightarrow> string set" where
  "Keys D = fst ` set D"

definition linked_to_definition :: "string set \<Rightarrow> Instance \<Rightarrow> bool" where
  "linked_to_definition K var = (ParentID var \<in> K \<longrightarrow> Parent var = Some (ParentID var))"

definition link_step :: "string set \<Rightarrow> Instance \<Rightarrow> Instance \<Rightarrow> bool" where
  "link_step K old new =
     (new = old \<or> (ParentID old \<in> K \<and> new = old\<lparr>Parent := Some (ParentID old)\<rparr>))"

definition unmatched_kept :: "string set \<Rightarrow> Instance \<Rightarrow> Instance \<Rightarrow> bool" where
  "unmatched_kept K old new = (ParentID old \<in> K \<or> new = old)"

text \<open>
  \<open>resolve K var\<close> is the instance \<open>var\<close> as a completed pass leaves it when \<open>K\<close> is
  the set of known identifiers: linked to the definition it names if that is known,
  untouched otherwise.
\<close>

definition resolve :: "string set \<Rightarrow> Instance \<Rightarrow> Instance" where
  "resolve K var = (if ParentID var \<in> K then var\<lparr>Parent := Some (ParentID var)\<rparr> else var)"

text \<open>
  \<open>store_le C C'\<close>: the store \<open>C'\<close> has the entries of \<open>C\<close> in the same order, each
  with the same identifier and with instances that took link steps only.
  \<open>group_state_le\<close> is the same for the state of the loop of \<^verbatim>\<open>FixRefs(Group^)\<close>.
  \<open>all_Instances\<close> lists the instances of a group tree, at every depth.
\<close>

definition entry_le :: "string set \<Rightarrow> string \<times> Component \<Rightarrow> string \<times> Component \<Rightarrow> bool" where
  "entry_le K e e' =
     (fst e' = fst e \<and> Guid (snd e') = Guid (snd e)
      \<and> list_all2 (link_step K) (Component.Instances (snd e)) (Component.Instances (snd e')))"

definition entries_le :: "string set \<Rightarrow> Component Dictionary \<Rightarrow> Component Dictionary \<Rightarrow> bool" where
  "entries_le K C C' = list_all2 (entry_le K) C C'"

definition store_le :: "Component Dictionary \<Rightarrow> Component Dictionary \<Rightarrow> bool" where
  "store_le C C' = entries_le (Keys C) C C'"

definition group_state_le :: "Component Dictionary \<times> Group \<Rightarrow> Component Dictionary \<times> Group \<Rightarrow> bool" where
  "group_state_le p q =
     (store_le (fst p) (fst q)
      \<and> list_all2 (link_step (Keys (fst p))) (Group.Instances (snd p)) (Group.Instances (snd q)))"

fun all_Instances :: "Group \<Rightarrow> Instance list" where
  "all_Instances (Group m gs ss is) = is @ concat (map all_Instances gs)"

text \<open>
  An object is \<open>fully_linked\<close> when every instance the three loops of lines 233 to 253
  visit is linked: the top-level instances, the instances of every definition, and the
  instances directly owned by a top-level group.
\<close>

definition fully_linked :: "SketchUp \<Rightarrow> bool" where
  "fully_linked this =
     ((\<forall>var \<in> set (SketchUp.Instances this).
         linked_to_definition (Keys (Components this)) var)
      \<and> (\<forall>e \<in> set (Components this). \<forall>var \<in> set (Component.Instances (snd e)).
         linked_to_definition (Keys (Components this)) var)
      \<and> (\<forall>grp \<in> set (SketchUp.Groups this). \<forall>var \<in> set (Group.Instances grp).
         linked_to_definition (Keys (Components this)) var))"

text \<open>
  A definition graph is acyclic when some rank strictly decreases along every reference
  from a definition, through one of its instances, to a known definition; it has a cycle
  when there is a non-empty set \<open>S\<close> of definitions each of which owns an instance naming a
  member of \<open>S\<close>. Both are stated for a store and for the definitions of a file.
\<close>

definition acyclic_by :: "(string \<Rightarrow> nat) \<Rightarrow> Component Dictionary \<Rightarrow> bool" where
  "acyclic_by rank C =
     (\<forall>g \<in> Keys C. \<forall>var \<in> set (Instances_of C g).
        ParentID var \<in> Keys C \<longrightarrow> rank (ParentID var) < rank g)"

definition cycle_in :: "string set \<Rightarrow> Component Dictionary \<Rightarrow> bool" where
  "cycle_in S C =
     (S \<subseteq> Keys C \<and> (\<forall>g \<in> S. \<exists>var \<in> set (Instances_of C g). ParentID var \<in> S))"

definition acyclic_file :: "(string \<Rightarrow> nat) \<Rightarrow> SUFile \<Rightarrow> bool" where
  "acyclic_file rank file =
     (\<forall>c \<in> set (su_definitions file). \<forall>var \<in> set (Component.Instances c).
        ParentID var \<in> Guid ` set (su_definitions file) \<longrightarrow> rank (ParentID var) < rank (Guid c))"

definition cyclic_file :: "string set \<Rightarrow> SUFile \<Rightarrow> bool" where
  "cyclic_file S file =
     (S \<noteq> {} \<and> S \<subseteq> Guid ` set (su_definitions file)
      \<and> (\<forall>c \<in> set (su_definitions file).
            Guid c \<in> S \<longrightarrow> (\<exists>var \<in> set (Component.Instances c). ParentID var \<in> S)))"

text \<open>
  \<open>refs C g c\<close> counts the instances of the definition stored under \<open>g\<close> that name
  \<open>c\<close>; \<open>group_refs\<close> does the same for the instances a group owns directly.
\<close>

definition refs :: "Component Dictionary \<Rightarrow> string \<Rightarrow> string \<Rightarrow> nat" where
  "refs C g c = length (filter (\<lambda>var. ParentID var = c) (Instances_of C g))"

definition group_refs :: "Group \<Rightarrow> string \<Rightarrow> nat" where
  "group_refs grp c = length (filter (\<lambda>var. ParentID var = c) (Group.Instances grp))"

text \<open>
  \<open>shared_by_two this a b c\<close>: the distinct definitions \<open>a\<close> and \<open>b\<close> each own exactly one
  instance naming \<open>c\<close>, and no other instance of a definition in the dictionary or of a
  top-level group names \<open>a\<close>, \<open>b\<close> or \<open>c\<close>.
\<close>

definition shared_by_two :: "SketchUp \<Rightarrow> string \<Rightarrow> string \<Rightarrow> string \<Rightarrow> bool" where
  "shared_by_two this a b c =
     (a \<noteq> b
      \<and> ContainsKey (Components this) a \<and> ContainsKey (Components this) b
      \<and> ContainsKey (Components this) c
      \<and> (\<forall>g \<in> Keys (Components this).
            refs (Components this) g c = (if g = a then 1 else 0) + (if g = b then 1 else 0)
            \<and> refs (Components this) g a = 0 \<and> refs (Components this) g b = 0)
      \<and> (\<forall>grp \<in> set (SketchUp.Groups this).
            group_refs grp a = 0 \<and> group_refs grp b = 0 \<and> group_refs grp c = 0))"

subsection \<open>Concrete models used to exercise the theorems\<close>

definition blank :: SketchUp where
  "blank = \<lparr>SketchUp.Surfaces = [], Layers = [], SketchUp.Groups = [], Components = [],
     Materials = [], SketchUp.Instances = [], Curves = [], Edges = [],
     MoreRecentFileVersion = False\<rparr>"

definition empty_file :: "SUModelLoadStatus \<Rightarrow> SUFile" where
  "empty_file st = \<lparr>load_status = st, su_materials = [], su_layers = [], su_groups = [],
     su_definitions = [], su_surfaces = [], su_curves = [], su_edges = [], su_instances = []\<rparr>"

definition inst :: "string \<Rightarrow> Instance" where
  "inst p = \<lparr>ParentID = p, Parent = None\<rparr>"

definition linked :: "string \<Rightarrow> Instance" where
  "linked p = \<lparr>ParentID = p, Parent = Some p\<rparr>"

definition mat :: "string \<Rightarrow> nat \<Rightarrow> Material" where
  "mat n a = \<lparr>Name = n, Appearance = a\<rparr>"

definition definition_of :: "string \<Rightarrow> Instance list \<Rightarrow> Component" where
  "definition_of g insts = \<lparr>Guid = g, Component.Instances = insts\<rparr>"

definition load_calls :: "api_call list" where
  "load_calls = [SUInitialize, SUModelCreateFromFileWithStatus, SUModelGetEntities,
     SUModelRelease, SUTerminate]"

text \<open>
  A file with a repeated material name, a group with an unset child, definition \<open>A\<close>
  placing definition \<open>B\<close>, and instances that name no definition (\<open>X\<close>, \<open>Y\<close>, \<open>Z\<close>).
  \<open>example_group\<close> is its group, \<open>example_extracted\<close> the object when line 233 is
  reached, \<open>example_loaded\<close> the object after loading it with material inheritance, and
  \<open>example_rank\<close> a rank for its definitions.
\<close>

definition example_group :: Group where
  "example_group = Group (mat ''Wood'' 1)
     [Group (mat [] 0) []
        [\<lparr>FrontMaterial = mat [] 0, BackMaterial = mat ''Steel'' 2\<rparr>] [inst ''A'']]
     [] [inst ''A'', inst ''Y'']"

definition example_file :: "SUModelLoadStatus \<Rightarrow> SUFile" where
  "example_file st = \<lparr>load_status = st,
     su_materials = [mat ''Wood'' 1, mat ''Steel'' 2, mat ''Wood'' 3],
     su_layers = [Layer 0],
     su_groups = [example_group],
     su_definitions = [definition_of ''A'' [inst ''B'', inst ''X''], definition_of ''B'' []],
     su_surfaces = [], su_curves = [Curve 0], su_edges = [Edge 0, Edge 1],
     su_instances = [inst ''B'', inst ''Z'']\<rparr>"

definition example_extracted :: SketchUp where
  "example_extracted = \<lparr>SketchUp.Surfaces = [], Layers = [Layer 0],
     SketchUp.Groups = [example_group],
     Components = [(''A'', definition_of ''A'' [inst ''B'', inst ''X'']),
        (''B'', definition_of ''B'' [])],
     Materials = [(''Wood'', mat ''Wood'' 1), (''Steel'', mat ''Steel'' 2)],
     SketchUp.Instances = [inst ''B'', inst ''Z''], Curves = [Curve 0],
     Edges = [Edge 0, Edge 1],
     MoreRecentFileVersion = False\<rparr>"

definition example_loaded :: "bool \<Rightarrow> SketchUp" where
  "example_loaded newer = \<lparr>SketchUp.Surfaces = [], Layers = [Layer 0],
     SketchUp.Groups = [Group (mat ''Wood'' 1)
        [Group (mat ''Wood'' 1) []
           [\<lparr>FrontMaterial = mat ''Wood'' 1, BackMaterial = mat ''Steel'' 2\<rparr>] [inst ''A'']]
        [] [linked ''A'', inst ''Y'']],
     Components = [(''A'', definition_of ''A'' [linked ''B'', inst ''X'']),
        (''B'', definition_of ''B'' [])],
     Materials = [(''Wood'', mat ''Wood'' 1), (''Steel'', mat ''Steel'' 2)],
     SketchUp.Instances = [linked ''B'', inst ''Z''], Curves = [Curve 0],
     Edges = [Edge 0, Edge 1],
     MoreRecentFileVersion = newer\<rparr>"

definition example_rank :: "string \<Rightarrow> nat" where
  "example_rank g = (if g = ''A'' then 1 else 0)"

text \<open>
  A group tree for the material pass: the root is named \<open>Wood\<close>; its only child is
  unset and owns a surface with unset front and named back, a surface with both slots
  unset, an unset grandchild whose surface has both slots unset, and a grandchild named
  \<open>Glass\<close> whose surface has a named front and an unset back. \<open>material_example_fixed\<close>
  is the tree after the pass.
\<close>

definition material_example :: Group where
  "material_example = Group (mat ''Wood'' 1)
     [Group (mat [] 0)
        [Group (mat [] 0) [] [\<lparr>FrontMaterial = mat [] 0, BackMaterial = mat [] 0\<rparr>] [],
         Group (mat ''Glass'' 3) []
           [\<lparr>FrontMaterial = mat ''Steel'' 2, BackMaterial = mat [] 0\<rparr>] []]
        [\<lparr>FrontMaterial = mat [] 0, BackMaterial = mat ''Steel'' 2\<rparr>,
         \<lparr>FrontMaterial = mat [] 0, BackMaterial = mat [] 0\<rparr>] []]
     [\<lparr>FrontMaterial = mat ''Steel'' 2, BackMaterial = mat [] 0\<rparr>] []"

definition material_example_fixed :: Group where
  "material_example_fixed = Group (mat ''Wood'' 1)
     [Group (mat ''Wood'' 1)
        [Group (mat ''Wood'' 1) []
           [\<lparr>FrontMaterial = mat ''Wood'' 1, BackMaterial = mat ''Wood'' 1\<rparr>] [],
         Group (mat ''Glass'' 3) []
           [\<lparr>FrontMaterial = mat ''Steel'' 2, BackMaterial = mat ''Glass'' 3\<rparr>] []]
        [\<lparr>FrontMaterial = mat ''Wood'' 1, BackMaterial = mat ''Steel'' 2\<rparr>,
         \<lparr>FrontMaterial = mat ''Wood'' 1, BackMaterial = mat ''Wood'' 1\<rparr>] []]
     [\<lparr>FrontMaterial = mat ''Steel'' 2, BackMaterial = mat ''Wood'' 1\<rparr>] []"

text \<open>
  Definition \<open>A\<close> owns an instance naming \<open>B\<close>, and \<open>B\<close> one naming \<open>A\<close>:
  \<open>cyclic_example\<close> is a file with these definitions, \<open>cyclic_object\<close> the object
  holding them when line 233 is reached.
\<close>

definition cyclic_example :: SUFile where
  "cyclic_example = \<lparr>load_status = SUModelLoadStatus_Success, su_materials = [],
     su_layers = [], su_groups = [],
     su_definitions = [definition_of ''A'' [inst ''B''], definition_of ''B'' [inst ''A'']],
     su_surfaces = [], su_curves = [], su_edges = [], su_instances = []\<rparr>"

definition cyclic_object :: SketchUp where
  "cyclic_object = blank\<lparr>Components :=
     [(''A'', definition_of ''A'' [inst ''B'']), (''B'', definition_of ''B'' [inst ''A''])]\<rparr>"

text \<open>
  Definitions \<open>A\<close> and \<open>B\<close> each own one instance naming \<open>C\<close>, which owns none; the
  entries of the dictionary are in the given order. \<open>diamond_linked\<close> is the same object
  with both instances linked.
\<close>

definition diamond :: "string list \<Rightarrow> SketchUp" where
  "diamond order = blank\<lparr>Components :=
     map (\<lambda>g. (g, definition_of g (if g = ''C'' then [] else [inst ''C'']))) order\<rparr>"

definition diamond_linked :: "string list \<Rightarrow> SketchUp" where
  "diamond_linked order = blank\<lparr>Components :=
     map (\<lambda>g. (g, definition_of g (if g = ''C'' then [] else [linked ''C'']))) order\<rparr>"

section \<open>Properties\<close>

lemmas example_defs =
  example_file_def example_loaded_def example_group_def example_extracted_def empty_file_def
  blank_def inst_def linked_def mat_def definition_of_def load_calls_def

lemmas LoadModel_defs =
  LoadModel_def LoadModel_FixRefs_def LoadModel_Instances_def LoadModel_Components_def
  Add_def ContainsKey_def Instances_of_def set_Parent_def set_Parent_Group_def
  FixMaterialRefs_Surface_def

lemma example_file_loads:
  "LoadModel 3 (example_file st) True blank =
     Inr \<lparr>returned = True,
       object = example_loaded (st = SUModelLoadStatus_Success_MoreRecent),
       api_calls = load_calls\<rparr>"
  by (simp add: example_defs LoadModel_defs numeral_3_eq_3)

subsection \<open>The version flag after a save\<close>

text \<open>
  C10. \<^verbatim>\<open>SaveAs\<close> and \<^verbatim>\<open>AppendToModel\<close> assign \<open>MoreRecentFileVersion\<close> from the
  status of the file they open, whatever the flag was before.
\<close>

theorem SaveAs_AppendToModel_overwrite_flag:
  "MoreRecentFileVersion (object (SaveAs file version this)) =
     (load_status file = SUModelLoadStatus_Success_MoreRecent)
   \<and> MoreRecentFileVersion (object (AppendToModel file this)) =
     (load_status file = SUModelLoadStatus_Success_MoreRecent)"
  by (simp add: SaveAs_def AppendToModel_def)

text \<open>
  The flag set to true by a load of a newer file is false again after either operation
  has opened a file with status success.
\<close>

theorem SaveAs_AppendToModel_overwrite_flag_witness:
  "LoadModel 3 (example_file SUModelLoadStatus_Success_MoreRecent) True blank =
     Inr \<lparr>returned = True, object = example_loaded True, api_calls = load_calls\<rparr>
   \<and> MoreRecentFileVersion (example_loaded True)
   \<and> \<not> MoreRecentFileVersion (object
         (SaveAs (empty_file SUModelLoadStatus_Success) V2021 (example_loaded True)))
   \<and> \<not> MoreRecentFileVersion (object
         (AppendToModel (empty_file SUModelLoadStatus_Success) (example_loaded True)))"
  using SaveAs_AppendToModel_overwrite_flag
    [of "empty_file SUModelLoadStatus_Success" V2021 "example_loaded True"]
  by (simp add: example_file_loads) (simp add: empty_file_def example_loaded_def)

subsection \<open>Failure paths\<close>

text \<open>
  C3 (the code departs from the claim). A file whose status is a failure, for which the
  library delivers no entities: \<^verbatim>\<open>LoadModel\<close> does not abort, and it returns true.
  For any file, a failure status is treated exactly as the status success is.
\<close>

theorem LoadModel_ignores_failure_status:
  "LoadModel depth (empty_file (SUModelLoadStatus_Failure kind)) inheritGroupMaterials blank =
     Inr \<lparr>returned = True, object = blank, api_calls = load_calls\<rparr>
   \<and> LoadModel depth (file\<lparr>load_status := SUModelLoadStatus_Failure kind\<rparr>)
         inheritGroupMaterials this =
       LoadModel depth (file\<lparr>load_status := SUModelLoadStatus_Success\<rparr>)
         inheritGroupMaterials this"
proof
  show "LoadModel depth (empty_file (SUModelLoadStatus_Failure kind)) inheritGroupMaterials
      blank = Inr \<lparr>returned = True, object = blank, api_calls = load_calls\<rparr>"
    by (simp add: LoadModel_defs example_defs)
  show "LoadModel depth (file\<lparr>load_status := SUModelLoadStatus_Failure kind\<rparr>)
         inheritGroupMaterials this =
       LoadModel depth (file\<lparr>load_status := SUModelLoadStatus_Success\<rparr>)
         inheritGroupMaterials this"
    by (simp add: LoadModel_def Let_def split: sum.splits prod.splits)
qed

text \<open>
  C8 (the code departs from the claim). When \<^verbatim>\<open>SUModelCreate\<close> fails,
  \<^verbatim>\<open>WriteNewModel\<close> returns false right after it: neither \<^verbatim>\<open>SUModelRelease\<close> nor
  \<^verbatim>\<open>SUTerminate\<close> is called, although \<^verbatim>\<open>SUInitialize\<close> was. The other returning
  paths of the save operations end with these two calls.
\<close>

theorem WriteNewModel_early_return_skips_SUTerminate:
  "WriteNewModel SU_ERROR_OTHER version this =
     \<lparr>returned = False, object = this, api_calls = [SUInitialize, SUModelCreate]\<rparr>
   \<and> SUTerminate \<notin> set (api_calls (WriteNewModel SU_ERROR_OTHER version this))
   \<and> SUModelRelease \<notin> set (api_calls (WriteNewModel SU_ERROR_OTHER version this))
   \<and> drop 7 (api_calls (WriteNewModel SU_ERROR_NONE version this)) = [SUModelRelease, SUTerminate]
   \<and> drop 3 (api_calls (SaveAs file version this)) = [SUModelRelease, SUTerminate]
   \<and> drop 7 (api_calls (AppendToModel file this)) = [SUModelRelease, SUTerminate]"
  by (simp add: WriteNewModel_def SaveAs_def AppendToModel_def)

subsection \<open>Material inheritance\<close>

lemma FixMaterialRefs_Groups_map:
  "FixMaterialRefs_Groups pm gs = map (\<lambda>g. FixMaterialRefs (with_Material pm g)) gs"
proof (induction gs)
  case Nil show ?case by simp
next
  case (Cons g gs)
  then show ?case by (cases g) (simp add: with_Material_def)
qed

lemma FixMaterialRefs_sel:
  "Group.Material (FixMaterialRefs g) = Group.Material g"
  "Group.Groups (FixMaterialRefs g) = map (\<lambda>h. FixMaterialRefs (with_Material (Group.Material g) h)) (Group.Groups g)"
  "Group.Surfaces (FixMaterialRefs g) = map (FixMaterialRefs_Surface (Group.Material g)) (Group.Surfaces g)"
  "Group.Instances (FixMaterialRefs g) = Group.Instances g"
  by (cases g; simp add: FixMaterialRefs_Groups_map)+

lemma with_Material_sel:
  "Group.Material (with_Material pm g) = (if Name (Group.Material g) = [] then pm else Group.Material g)"
  "Group.Groups (with_Material pm g) = Group.Groups g"
  "Group.Surfaces (with_Material pm g) = Group.Surfaces g"
  "Group.Instances (with_Material pm g) = Group.Instances g"
  by (simp_all add: with_Material_def)

lemma FixMaterialRefs_Surface_sel:
  "FrontMaterial (FixMaterialRefs_Surface pm s) = (if Name (FrontMaterial s) = [] then pm else FrontMaterial s)"
  "BackMaterial (FixMaterialRefs_Surface pm s) = (if Name (BackMaterial s) = [] then pm else BackMaterial s)"
  by (simp_all add: FixMaterialRefs_Surface_def Let_def)

lemma slots_sel:
  "slots g = Group.Material g # concat (map slots (Group.Groups g))
     @ concat (map (\<lambda>s. [FrontMaterial s, BackMaterial s]) (Group.Surfaces g))"
  by (cases g) simp

lemma list_all2_concat_map:
  assumes "\<And>x. x \<in> set xs \<Longrightarrow> list_all2 R (f x) (g x)"
  shows "list_all2 R (concat (map f xs)) (concat (map g xs))"
  using assms by (induction xs) (auto intro: list_all2_appendI)

lemma slots_kept_aux:
  "list_all2 (\<lambda>old new. new = old \<or> Name old = []) (slots g) (slots (FixMaterialRefs g))"
  and "list_all2 (\<lambda>old new. new = old \<or> Name old = []) (concat (map slots gs))
       (concat (map slots (FixMaterialRefs_Groups pm gs)))"
proof (induction g and pm gs rule: FixMaterialRefs_FixMaterialRefs_Groups.induct)
  case (1 m gs ss "is")
  have "list_all2 (\<lambda>old new. new = old \<or> Name old = [])
          (concat (map (\<lambda>s. [FrontMaterial s, BackMaterial s]) ss))
          (concat (map (\<lambda>s. [FrontMaterial s, BackMaterial s]) (map (FixMaterialRefs_Surface m) ss)))"
    unfolding map_map by (rule list_all2_concat_map) (simp add: FixMaterialRefs_Surface_sel)
  with 1 show ?case by (simp add: list_all2_appendI)
next
  case (2 pm) show ?case by simp
next
  case (3 pm m gs ss "is" rest)
  from 3(1) have "list_all2 (\<lambda>old new. new = old \<or> Name old = []) (slots (Group m gs ss is))
     (slots (FixMaterialRefs (Group (if Name m = [] then pm else m) gs ss is)))"
    by simp
  with 3(2) show ?case by (simp add: list_all2_appendI del: slots.simps FixMaterialRefs.simps)
qed

lemma nearest_explicit_step:
  "nearest_explicit (m # mh # rest) = nearest_explicit ((if Name mh = [] then m else mh) # rest)"
  by (cases "filter (\<lambda>m. Name m \<noteq> []) (rev rest)") (auto simp add: nearest_explicit_def)

lemma chain_with_Material:
  "chain (with_Material pm g) p =
     (if Name (Group.Material g) = [] then pm else Group.Material g) # tl (chain g p)"
  by (cases p) (simp_all add: with_Material_sel)

lemma chain_Cons: "chain g p = Group.Material g # tl (chain g p)"
  by (cases p) simp_all

lemma FixMaterialRefs_Surface_eq:
  "FixMaterialRefs_Surface pm s =
     \<lparr>FrontMaterial = (if Name (FrontMaterial s) = [] then pm else FrontMaterial s),
      BackMaterial = (if Name (BackMaterial s) = [] then pm else BackMaterial s)\<rparr>"
  by (cases s) (simp add: FixMaterialRefs_Surface_def Let_def)

lemma subgroup_with_Material:
  "subgroup g p = Some h \<Longrightarrow>
   \<exists>h2. subgroup (with_Material pm g) p = Some h2
     \<and> Group.Surfaces h2 = Group.Surfaces h \<and> Group.Instances h2 = Group.Instances h
     \<and> Group.Groups h2 = Group.Groups h"
  by (cases p) (auto simp add: with_Material_sel split: if_splits)

lemma subgroup_with_Material_None:
  "subgroup g p = None \<Longrightarrow> subgroup (with_Material pm g) p = None"
  by (cases p) (auto simp add: with_Material_sel split: if_splits)

lemma subgroup_FixMaterialRefs_None:
  "subgroup g p = None \<Longrightarrow> subgroup (FixMaterialRefs g) p = None"
proof (induction p arbitrary: g)
  case Nil
  then show ?case by simp
next
  case (Cons i p)
  show ?case
  proof (cases "i < length (Group.Groups g)")
    case True
    with Cons.prems have "subgroup (Group.Groups g ! i) p = None" by simp
    then have "subgroup (with_Material (Group.Material g) (Group.Groups g ! i)) p = None"
      by (rule subgroup_with_Material_None)
    from Cons.IH [OF this] True show ?thesis by (simp add: FixMaterialRefs_sel)
  next
    case False
    then show ?thesis by (simp add: FixMaterialRefs_sel)
  qed
qed

lemma subgroup_FixMaterialRefs:
  "subgroup g p = Some h \<Longrightarrow>
   \<exists>h'. subgroup (FixMaterialRefs g) p = Some h'
     \<and> Group.Material h' = nearest_explicit (chain g p)
     \<and> Group.Surfaces h' = map (FixMaterialRefs_Surface (Group.Material h')) (Group.Surfaces h)
     \<and> Group.Instances h' = Group.Instances h
     \<and> length (Group.Groups h') = length (Group.Groups h)"
proof (induction p arbitrary: g h)
  case Nil
  then show ?case by (simp add: FixMaterialRefs_sel nearest_explicit_def)
next
  case (Cons i p)
  let ?gi = "Group.Groups g ! i"
  let ?g' = "with_Material (Group.Material g) ?gi"
  from Cons.prems have i: "i < length (Group.Groups g)" and sub: "subgroup ?gi p = Some h"
    by (auto split: if_splits)
  from subgroup_with_Material [OF sub, of "Group.Material g"] obtain h2 where
    h2: "subgroup ?g' p = Some h2" "Group.Surfaces h2 = Group.Surfaces h"
      "Group.Instances h2 = Group.Instances h" "Group.Groups h2 = Group.Groups h" by blast
  from Cons.IH [OF h2(1)] obtain h' where
    h': "subgroup (FixMaterialRefs ?g') p = Some h'"
      "Group.Material h' = nearest_explicit (chain ?g' p)"
      "Group.Surfaces h' = map (FixMaterialRefs_Surface (Group.Material h')) (Group.Surfaces h2)"
      "Group.Instances h' = Group.Instances h2"
      "length (Group.Groups h') = length (Group.Groups h2)" by blast
  have "nearest_explicit (chain g (i # p)) = nearest_explicit (chain ?g' p)"
  proof -
    have "chain g (i # p) = Group.Material g # Group.Material ?gi # tl (chain ?gi p)"
      using i chain_Cons [of ?gi p] by simp
    then show ?thesis by (simp add: nearest_explicit_step chain_with_Material)
  qed
  with h' h2 i show ?case by (simp add: FixMaterialRefs_sel)
qed

lemma FixMaterialRefs_Surface_idem:
  "FixMaterialRefs_Surface m (FixMaterialRefs_Surface m s) = FixMaterialRefs_Surface m s"
  by (simp add: FixMaterialRefs_Surface_def Let_def)

lemma FixMaterialRefs_idem:
  "FixMaterialRefs (FixMaterialRefs g) = FixMaterialRefs g"
  and "FixMaterialRefs_Groups pm (FixMaterialRefs_Groups pm gs) = FixMaterialRefs_Groups pm gs"
proof (induction g and pm gs rule: FixMaterialRefs_FixMaterialRefs_Groups.induct)
  case (1 m gs ss "is")
  then show ?case by (simp add: FixMaterialRefs_Surface_idem)
next
  case (2 pm) show ?case by simp
next
  case (3 pm m gs ss "is" rest)
  let ?m' = "if Name m = [] then pm else m"
  have m': "(if Name ?m' = [] then pm else ?m') = ?m'" by simp
  have "FixMaterialRefs_Groups pm (FixMaterialRefs (Group ?m' gs ss is) # FixMaterialRefs_Groups pm rest)
      = FixMaterialRefs (FixMaterialRefs (Group ?m' gs ss is)) # FixMaterialRefs_Groups pm (FixMaterialRefs_Groups pm rest)"
    using m' by simp
  with 3 show ?case by simp
qed

lemma material_example_FixMaterialRefs:
  "FixMaterialRefs material_example = material_example_fixed"
  by (simp add: material_example_def material_example_fixed_def mat_def
      FixMaterialRefs_Surface_def)

text \<open>
  C4. First conjunct: a child group with unset material takes the material of the group
  that owns it, and a surface of that child with unset front and named back material gets
  the same material in front and keeps its back material. Second conjunct: every slot of
  the tree is unchanged unless it was unset. Third conjunct: the group at the end of any
  path ends with the nearest named material on the path (its own, if it has one); each of
  its surfaces has that material in every slot that was unset, front and back separately,
  and its own material in every slot that was named; its instances and the number of its
  children are unchanged. Fourth conjunct: the pass creates no group.
\<close>

theorem FixMaterialRefs_precedence:
  "(i < length (Group.Groups g) \<and> j < length (Group.Surfaces (Group.Groups g ! i))
      \<and> Name (Group.Material (Group.Groups g ! i)) = []
      \<and> Name (FrontMaterial (Group.Surfaces (Group.Groups g ! i) ! j)) = []
      \<and> Name (BackMaterial (Group.Surfaces (Group.Groups g ! i) ! j)) \<noteq> []
    \<longrightarrow> Group.Material (Group.Groups (FixMaterialRefs g) ! i) = Group.Material g
      \<and> FrontMaterial (Group.Surfaces (Group.Groups (FixMaterialRefs g) ! i) ! j) = Group.Material g
      \<and> BackMaterial (Group.Surfaces (Group.Groups (FixMaterialRefs g) ! i) ! j)
          = BackMaterial (Group.Surfaces (Group.Groups g ! i) ! j))
   \<and> list_all2 (\<lambda>old new. new = old \<or> Name old = []) (slots g) (slots (FixMaterialRefs g))
   \<and> (subgroup g p = Some h \<longrightarrow>
        (\<exists>h'. subgroup (FixMaterialRefs g) p = Some h'
           \<and> Group.Material h' = nearest_explicit (chain g p)
           \<and> Group.Surfaces h' =
               map (\<lambda>s. \<lparr>FrontMaterial =
                            (if Name (FrontMaterial s) = [] then nearest_explicit (chain g p)
                             else FrontMaterial s),
                          BackMaterial =
                            (if Name (BackMaterial s) = [] then nearest_explicit (chain g p)
                             else BackMaterial s)\<rparr>) (Group.Surfaces h)
           \<and> Group.Instances h' = Group.Instances h
           \<and> length (Group.Groups h') = length (Group.Groups h)))
   \<and> (subgroup g p = None \<longrightarrow> subgroup (FixMaterialRefs g) p = None)"
proof (intro conjI impI)
  assume a: "i < length (Group.Groups g) \<and> j < length (Group.Surfaces (Group.Groups g ! i))
      \<and> Name (Group.Material (Group.Groups g ! i)) = []
      \<and> Name (FrontMaterial (Group.Surfaces (Group.Groups g ! i) ! j)) = []
      \<and> Name (BackMaterial (Group.Surfaces (Group.Groups g ! i) ! j)) \<noteq> []"
  then show "Group.Material (Group.Groups (FixMaterialRefs g) ! i) = Group.Material g"
    by (simp add: FixMaterialRefs_sel with_Material_sel)
  from a show "FrontMaterial (Group.Surfaces (Group.Groups (FixMaterialRefs g) ! i) ! j) = Group.Material g"
    by (simp add: FixMaterialRefs_sel with_Material_sel FixMaterialRefs_Surface_sel)
  from a show "BackMaterial (Group.Surfaces (Group.Groups (FixMaterialRefs g) ! i) ! j)
          = BackMaterial (Group.Surfaces (Group.Groups g ! i) ! j)"
    by (simp add: FixMaterialRefs_sel with_Material_sel FixMaterialRefs_Surface_sel)
next
  show "list_all2 (\<lambda>old new. new = old \<or> Name old = []) (slots g) (slots (FixMaterialRefs g))"
    by (rule slots_kept_aux(1))
next
  assume "subgroup g p = Some h"
  from subgroup_FixMaterialRefs [OF this] obtain h' where
    h': "subgroup (FixMaterialRefs g) p = Some h'"
      "Group.Material h' = nearest_explicit (chain g p)"
      "Group.Surfaces h' = map (FixMaterialRefs_Surface (Group.Material h')) (Group.Surfaces h)"
      "Group.Instances h' = Group.Instances h"
      "length (Group.Groups h') = length (Group.Groups h)" by blast
  from h'(2,3) have "Group.Surfaces h' =
      map (\<lambda>s. \<lparr>FrontMaterial =
                   (if Name (FrontMaterial s) = [] then nearest_explicit (chain g p)
                    else FrontMaterial s),
                 BackMaterial =
                   (if Name (BackMaterial s) = [] then nearest_explicit (chain g p)
                    else BackMaterial s)\<rparr>) (Group.Surfaces h)"
    by (simp add: FixMaterialRefs_Surface_eq)
  with h' show "\<exists>h'. subgroup (FixMaterialRefs g) p = Some h'
           \<and> Group.Material h' = nearest_explicit (chain g p)
           \<and> Group.Surfaces h' =
               map (\<lambda>s. \<lparr>FrontMaterial =
                            (if Name (FrontMaterial s) = [] then nearest_explicit (chain g p)
                             else FrontMaterial s),
                          BackMaterial =
                            (if Name (BackMaterial s) = [] then nearest_explicit (chain g p)
                             else BackMaterial s)\<rparr>) (Group.Surfaces h)
           \<and> Group.Instances h' = Group.Instances h
           \<and> length (Group.Groups h') = length (Group.Groups h)"
    by blast
next
  assume "subgroup g p = None"
  then show "subgroup (FixMaterialRefs g) p = None" by (rule subgroup_FixMaterialRefs_None)
qed

text \<open>
  On \<open>material_example\<close>: the unset child takes \<open>Wood\<close>; its surface with unset front
  and back \<open>Steel\<close> gets \<open>Wood\<close> in front and keeps \<open>Steel\<close>; the surface of the
  grandchild named \<open>Glass\<close> keeps its front \<open>Steel\<close> and gets \<open>Glass\<close>, not
  \<open>Wood\<close>, behind; the surface of the unset grandchild gets \<open>Wood\<close> in both slots.
\<close>

theorem FixMaterialRefs_precedence_witness:
  "Name (Group.Material (Group.Groups material_example ! 0)) = []
   \<and> Group.Surfaces (Group.Groups material_example ! 0) ! 0
        = \<lparr>FrontMaterial = mat [] 0, BackMaterial = mat ''Steel'' 2\<rparr>
   \<and> FixMaterialRefs material_example = material_example_fixed
   \<and> Group.Material (Group.Groups material_example_fixed ! 0) = mat ''Wood'' 1
   \<and> Group.Surfaces (Group.Groups material_example_fixed ! 0) ! 0
        = \<lparr>FrontMaterial = mat ''Wood'' 1, BackMaterial = mat ''Steel'' 2\<rparr>
   \<and> subgroup material_example [0, 1]
        = Some (Group (mat ''Glass'' 3) []
             [\<lparr>FrontMaterial = mat ''Steel'' 2, BackMaterial = mat [] 0\<rparr>] [])
   \<and> nearest_explicit (chain material_example [0, 1]) = mat ''Glass'' 3
   \<and> subgroup material_example_fixed [0, 1]
        = Some (Group (mat ''Glass'' 3) []
             [\<lparr>FrontMaterial = mat ''Steel'' 2, BackMaterial = mat ''Glass'' 3\<rparr>] [])
   \<and> subgroup material_example [0, 0]
        = Some (Group (mat [] 0) []
             [\<lparr>FrontMaterial = mat [] 0, BackMaterial = mat [] 0\<rparr>] [])
   \<and> nearest_explicit (chain material_example [0, 0]) = mat ''Wood'' 1
   \<and> subgroup material_example_fixed [0, 0]
        = Some (Group (mat ''Wood'' 1) []
             [\<lparr>FrontMaterial = mat ''Wood'' 1, BackMaterial = mat ''Wood'' 1\<rparr>] [])
   \<and> subgroup material_example [1] = None \<and> subgroup material_example_fixed [1] = None"
  using FixMaterialRefs_precedence [of 0 material_example 0 "[0, 1]"
      "Group (mat ''Glass'' 3) [] [\<lparr>FrontMaterial = mat ''Steel'' 2, BackMaterial = mat [] 0\<rparr>] []"]
    FixMaterialRefs_precedence [of 0 material_example 0 "[0, 0]"
      "Group (mat [] 0) [] [\<lparr>FrontMaterial = mat [] 0, BackMaterial = mat [] 0\<rparr>] []"]
    FixMaterialRefs_precedence [of 0 material_example 0 "[1]" material_example]
  by (simp add: material_example_FixMaterialRefs)
     (simp add: material_example_def material_example_fixed_def mat_def nearest_explicit_def)

subsection \<open>The material dictionary\<close>

lemma LoadModel_Materials_aux:
  "distinct (map fst M0) \<Longrightarrow>
   \<exists>M. LoadModel_Materials mats M0 = Inr M \<and> distinct (map fst M)
     \<and> (\<forall>n. map_of M n =
           (if n \<in> fst ` set M0 then map_of M0 n else find (\<lambda>m. Name m = n) mats))"
proof (induction mats arbitrary: M0)
  case Nil
  then show ?case by (simp add: map_of_eq_None_iff)
next
  case (Cons mat mats)
  show ?case
  proof (cases "ContainsKey M0 (Name mat)")
    case True
    from Cons.IH [OF Cons.prems] obtain M where
      M: "LoadModel_Materials mats M0 = Inr M" "distinct (map fst M)"
        "\<forall>n. map_of M n =
           (if n \<in> fst ` set M0 then map_of M0 n else find (\<lambda>m. Name m = n) mats)" by blast
    from True have "Name mat \<in> fst ` set M0" by (simp add: ContainsKey_def)
    then have "\<forall>n. map_of M n =
           (if n \<in> fst ` set M0 then map_of M0 n else find (\<lambda>m. Name m = n) (mat # mats))"
      using M(3) by auto
    with M True show ?thesis by simp
  next
    case False
    then have notin: "Name mat \<notin> fst ` set M0" by (simp add: ContainsKey_def)
    with Cons.prems have "distinct (map fst (M0 @ [(Name mat, mat)]))" by simp
    from Cons.IH [OF this] obtain M where
      M: "LoadModel_Materials mats (M0 @ [(Name mat, mat)]) = Inr M" "distinct (map fst M)"
        "\<forall>n. map_of M n = (if n \<in> fst ` set (M0 @ [(Name mat, mat)])
            then map_of (M0 @ [(Name mat, mat)]) n else find (\<lambda>m. Name m = n) mats)" by blast
    have "map_of M n =
           (if n \<in> fst ` set M0 then map_of M0 n else find (\<lambda>m. Name m = n) (mat # mats))" for n
    proof (cases "n \<in> fst ` set M0")
      case True
      then obtain v where "map_of M0 n = Some v"
        by (metis map_of_eq_None_iff not_Some_eq)
      with True M(3) show ?thesis by (simp add: map_add_def)
    next
      case n: False
      then have "map_of M0 n = None" by (simp add: map_of_eq_None_iff)
      with n M(3) show ?thesis by (auto simp add: map_add_def)
    qed
    with M False show ?thesis by (simp add: Add_def)
  qed
qed



subsection \<open>What FixRefs changes\<close>

text \<open>
  Every activation of \<^verbatim>\<open>FixRefs\<close> leaves the keys, the identifiers and every
  \<open>ParentID\<close> as they are, and changes an instance by a link step at most
  (\<open>FixRefs_store_le\<close>).
\<close>

lemma ContainsKey_Keys: "ContainsKey D k = (k \<in> Keys D)"
  by (simp add: ContainsKey_def Keys_def)

lemma link_step_refl: "link_step K v v"
  by (simp add: link_step_def)

lemma link_step_trans: "link_step K a b \<Longrightarrow> link_step K b c \<Longrightarrow> link_step K a c"
  by (auto simp add: link_step_def)

lemma link_step_ParentID: "link_step K a b \<Longrightarrow> ParentID b = ParentID a"
  by (auto simp add: link_step_def)

lemma link_step_linked:
  "link_step K a b \<Longrightarrow> Parent a = Some (ParentID a) \<Longrightarrow> b = a"
  by (auto simp add: link_step_def)

lemma link_step_unmatched: "link_step K a b \<Longrightarrow> ParentID a \<notin> K \<Longrightarrow> b = a"
  by (auto simp add: link_step_def)

lemma link_step_keeps_linked:
  "link_step K a b \<Longrightarrow> linked_to_definition K a \<Longrightarrow> linked_to_definition K b"
  by (auto simp add: link_step_def linked_to_definition_def)

lemma list_all2_link_step_refl: "list_all2 (link_step K) vs vs"
  by (simp add: list_all2_same link_step_refl)

lemma list_all2_link_step_trans:
  "list_all2 (link_step K) a b \<Longrightarrow> list_all2 (link_step K) b c \<Longrightarrow> list_all2 (link_step K) a c"
  using list_all2_trans [of "link_step K" "link_step K" "link_step K" a b c]
  by (blast intro: link_step_trans)

lemma entries_le_refl: "entries_le K C C"
  by (simp add: entries_le_def entry_le_def list_all2_same link_step_refl)

lemma entries_le_trans:
  "entries_le K A B \<Longrightarrow> entries_le K B C \<Longrightarrow> entries_le K A C"
  unfolding entries_le_def
  using list_all2_trans [of "entry_le K" "entry_le K" "entry_le K" A B C]
  by (auto simp add: entry_le_def intro: list_all2_link_step_trans)

lemma entries_le_keys: "entries_le K C C' \<Longrightarrow> map fst C' = map fst C"
  unfolding entries_le_def by (induction rule: list_all2_induct) (auto simp add: entry_le_def)

lemma entries_le_Keys: "entries_le K C C' \<Longrightarrow> Keys C' = Keys C"
  using entries_le_keys [of K C C'] by (metis Keys_def set_map)

lemma entries_le_Instances_of:
  "entries_le K C C' \<Longrightarrow> list_all2 (link_step K) (Instances_of C g) (Instances_of C' g)"
  unfolding entries_le_def
  by (induction rule: list_all2_induct) (auto simp add: Instances_of_def entry_le_def)

lemma Instances_of_set_Parent:
  "Instances_of (set_Parent C g i k) h =
     (if h = g then (Instances_of C g)[i := (Instances_of C g ! i)\<lparr>Parent := Some k\<rparr>]
      else Instances_of C h)"
  by (auto simp add: Instances_of_def set_Parent_def map_of_map_entry split: option.splits)

lemma Keys_set_Parent: "Keys (set_Parent C g i k) = Keys C"
  by (simp add: Keys_def set_Parent_def dom_map_entry)

lemma keys_set_Parent: "map fst (set_Parent C g i k) = map fst C"
  unfolding set_Parent_def by (induction C) auto

lemma entries_le_set_Parent:
  assumes "k = ParentID (Instances_of C g ! i)" and "k \<in> K"
  shows "entries_le K C (set_Parent C g i k)"
  using assms(1)
proof (induction C)
  case Nil
  show ?case by (simp add: entries_le_def set_Parent_def)
next
  case (Cons e C)
  show ?case
  proof (cases "fst e = g")
    case True
    let ?is = "Component.Instances (snd e)"
    from True Cons.prems have k: "k = ParentID (?is ! i)"
      by (cases e) (simp add: Instances_of_def)
    have "link_step K (?is ! i) ((?is ! i)\<lparr>Parent := Some k\<rparr>)"
      using k assms(2) by (simp add: link_step_def)
    from list_all2_update_cong [OF list_all2_link_step_refl this, of ?is i]
    have "list_all2 (link_step K) ?is (?is[i := (?is ! i)\<lparr>Parent := Some k\<rparr>])"
      by simp
    with True show ?thesis
      using entries_le_refl [of K C]
      by (cases e) (simp add: entries_le_def entry_le_def set_Parent_def)
  next
    case False
    with Cons.prems have "k = ParentID (Instances_of C g ! i)"
      by (cases e) (simp add: Instances_of_def)
    from Cons.IH [OF this] False show ?thesis
      by (cases e) (simp add: entries_le_def entry_le_def set_Parent_def list_all2_link_step_refl)
  qed
qed

lemma set_Parent_same:
  assumes "i < length (Instances_of T g) \<Longrightarrow> Parent (Instances_of T g ! i) = Some k"
  shows "set_Parent T g i k = T"
  using assms
proof (induction T)
  case Nil
  show ?case by (simp add: set_Parent_def)
next
  case (Cons e T)
  show ?case
  proof (cases "fst e = g")
    case True
    let ?is = "Component.Instances (snd e)"
    from True Cons.prems have "i < length ?is \<Longrightarrow> Parent (?is ! i) = Some k"
      by (cases e) (simp add: Instances_of_def)
    then have "?is[i := (?is ! i)\<lparr>Parent := Some k\<rparr>] = ?is"
      by (cases "i < length ?is") (simp_all add: list_update_same_conv list_update_beyond)
    with True show ?thesis by (cases e) (simp add: set_Parent_def)
  next
    case False
    with Cons.prems have "i < length (Instances_of T g) \<Longrightarrow> Parent (Instances_of T g ! i) = Some k"
      by (cases e) (simp add: Instances_of_def)
    from Cons.IH [OF this] False show ?thesis
      by (cases e) (simp add: set_Parent_def)
  qed
qed

lemma foreach_invariant:
  assumes "foreach xs body s = Inr (s', l)" and "I s"
    and "\<And>x s s' l. x \<in> set xs \<Longrightarrow> I s \<Longrightarrow> body x s = Inr (s', l) \<Longrightarrow> I s'"
  shows "I s'"
  using assms
proof (induction xs arbitrary: s l)
  case Nil
  then show ?case by simp
next
  case (Cons x xs)
  from Cons.prems(1) obtain s1 l1 l2 where
    step: "body x s = Inr (s1, l1)" and rest: "foreach xs body s1 = Inr (s', l2)"
    by (auto split: sum.splits prod.splits)
  from Cons.prems(3) [OF _ Cons.prems(2) step] have "I s1" by simp
  show ?case
  proof (rule Cons.IH [OF rest \<open>I s1\<close>])
    fix y t t' m
    assume "y \<in> set xs" "I t" "body y t = Inr (t', m)"
    then show "I t'" using Cons.prems(3) [of y t t' m] by simp
  qed
qed

lemma FixRefs_entries_le:
  "FixRefs d C g = Inr (C', l) \<Longrightarrow> entries_le (Keys C) C C'"
proof (induction d arbitrary: C g C' l)
  case 0
  then show ?case by simp
next
  case (Suc d)
  let ?body = "\<lambda>i C. let var = Instances_of C g ! i in
           if ContainsKey C (ParentID var)
           then FixRefs d (set_Parent C g i (ParentID var)) (ParentID var)
           else Inr (C, [])"
  from Suc.prems obtain l' where
    run: "foreach [0..<length (Instances_of C g)] ?body C = Inr (C', l')"
    by (auto split: sum.splits prod.splits)
  show ?case
  proof (rule foreach_invariant [OF run, where I = "\<lambda>s. entries_le (Keys C) C s"])
    show "entries_le (Keys C) C C" by (rule entries_le_refl)
  next
    fix i s s' l
    assume inv: "entries_le (Keys C) C s" and step: "?body i s = Inr (s', l)"
    let ?k = "ParentID (Instances_of s g ! i)"
    have keys: "Keys s = Keys C" using inv by (rule entries_le_Keys)
    show "entries_le (Keys C) C s'"
    proof (cases "ContainsKey s ?k")
      case True
      with step have "FixRefs d (set_Parent s g i ?k) ?k = Inr (s', l)" by (simp add: Let_def)
      from Suc.IH [OF this] have "entries_le (Keys C) (set_Parent s g i ?k) s'"
        by (simp add: Keys_set_Parent keys)
      moreover have "entries_le (Keys C) s (set_Parent s g i ?k)"
        using True by (intro entries_le_set_Parent) (simp_all add: ContainsKey_Keys keys)
      ultimately show ?thesis using inv by (blast intro: entries_le_trans)
    next
      case False
      with step inv show ?thesis by (simp add: Let_def)
    qed
  qed
qed

lemma FixRefs_Suc:
  "FixRefs (Suc d) C g =
     (case foreach [0..<length (Instances_of C g)] (FixRefs_body d g) C of
        Inl e \<Rightarrow> Inl e
      | Inr (C', log) \<Rightarrow> Inr (C', g # log))"
  by (simp add: FixRefs_body_def [abs_def])

lemma FixRefs_Group_Suc:
  "FixRefs_Group (Suc d) C grp =
     foreach [0..<length (Group.Instances grp)] (FixRefs_Group_body d) (C, grp)"
  by (simp add: FixRefs_Group_body_def [abs_def])

lemma store_le_refl: "store_le C C"
  by (simp add: store_le_def entries_le_refl)

lemma store_le_Keys: "store_le C C' \<Longrightarrow> Keys C' = Keys C"
  by (simp add: store_le_def entries_le_Keys)

lemma store_le_keys: "store_le C C' \<Longrightarrow> map fst C' = map fst C"
  by (simp add: store_le_def entries_le_keys)

lemma store_le_trans: "store_le A B \<Longrightarrow> store_le B C \<Longrightarrow> store_le A C"
  using entries_le_trans [of "Keys A" A B C] entries_le_Keys [of "Keys A" A B]
  by (simp add: store_le_def)

lemma store_le_Instances_of:
  "store_le C C' \<Longrightarrow> list_all2 (link_step (Keys C)) (Instances_of C g) (Instances_of C' g)"
  by (simp add: store_le_def entries_le_Instances_of)

lemma store_le_set_Parent:
  "ContainsKey C (ParentID (Instances_of C g ! i)) \<Longrightarrow>
   store_le C (set_Parent C g i (ParentID (Instances_of C g ! i)))"
  by (simp add: store_le_def entries_le_set_Parent ContainsKey_Keys)

lemma FixRefs_store_le: "FixRefs d C g = Inr (C', l) \<Longrightarrow> store_le C C'"
  by (simp add: store_le_def FixRefs_entries_le)

lemma FixRefs_body_store_le:
  assumes "FixRefs_body d g i s = Inr (s', l)"
  shows "store_le s s'"
proof (cases "ContainsKey s (ParentID (Instances_of s g ! i))")
  case True
  with assms have "FixRefs d (set_Parent s g i (ParentID (Instances_of s g ! i)))
      (ParentID (Instances_of s g ! i)) = Inr (s', l)"
    by (simp add: FixRefs_body_def Let_def)
  from FixRefs_store_le [OF this] store_le_set_Parent [OF True] show ?thesis
    by (blast intro: store_le_trans)
next
  case False
  with assms show ?thesis by (simp add: FixRefs_body_def Let_def store_le_refl)
qed

subsection \<open>A second pass changes nothing\<close>

text \<open>
  If an activation of \<^verbatim>\<open>FixRefs\<close> returns, the same activation on any later store
  returns that store unchanged, after the same expansions (\<open>FixRefs_fixed\<close>). The same
  holds for the loops of \<^verbatim>\<open>LoadModel\<close>.
\<close>

lemma foreach_fixed:
  assumes "foreach xs body s = Inr (s', l)" and "R s' T"
    and trans: "\<And>a b c. R a b \<Longrightarrow> R b c \<Longrightarrow> R a c"
    and mono: "\<And>x s s' l. x \<in> set xs \<Longrightarrow> body x s = Inr (s', l) \<Longrightarrow> R s s'"
    and fixed: "\<And>x s s' l. x \<in> set xs \<Longrightarrow> body x s = Inr (s', l) \<Longrightarrow> R s' T
        \<Longrightarrow> body x T = Inr (T, l)"
  shows "foreach xs body T = Inr (T, l)"
  using assms(1,2) mono fixed
proof (induction xs arbitrary: s l)
  case Nil
  then show ?case by simp
next
  case (Cons x xs)
  from Cons.prems(1) obtain s1 l1 l2 where
    step: "body x s = Inr (s1, l1)" and rest: "foreach xs body s1 = Inr (s', l2)"
    and l: "l = l1 @ l2"
    by (auto split: sum.splits prod.splits)
  have mono': "R t t'" if "y \<in> set xs" "body y t = Inr (t', m)" for y t t' m
    using that Cons.prems(3) [of y t t' m] by simp
  have fixed': "body y T = Inr (T, m)"
    if "y \<in> set xs" "body y t = Inr (t', m)" "R t' T" for y t t' m
    using that Cons.prems(4) [of y t t' m] by simp
  have "R s1 s' \<or> s1 = s'"
  proof (rule foreach_invariant [OF rest, where I = "\<lambda>t. R s1 t \<or> s1 = t"])
    show "R s1 s1 \<or> s1 = s1" by simp
  next
    fix y t t' m
    assume "y \<in> set xs" "R s1 t \<or> s1 = t" "body y t = Inr (t', m)"
    then show "R s1 t' \<or> s1 = t'" using mono' [of y t t' m] trans by blast
  qed
  with Cons.prems(2) have "R s1 T" using trans by blast
  with Cons.prems(4) [of x s s1 l1] step have "body x T = Inr (T, l1)" by simp
  moreover from Cons.IH [OF rest Cons.prems(2) mono' fixed']
  have "foreach xs body T = Inr (T, l2)" by simp
  ultimately show ?case using l by simp
qed

lemma FixRefs_fixed:
  "FixRefs d C g = Inr (C', l) \<Longrightarrow> store_le C' T \<Longrightarrow> FixRefs d T g = Inr (T, l)"
proof (induction d arbitrary: C g C' l T)
  case 0
  then show ?case by simp
next
  case (Suc d)
  from Suc.prems(1) obtain l' where
    run: "foreach [0..<length (Instances_of C g)] (FixRefs_body d g) C = Inr (C', l')"
    and l: "l = g # l'"
    unfolding FixRefs_Suc by (auto split: sum.splits prod.splits)
  have "store_le C T"
    using FixRefs_store_le [OF Suc.prems(1)] Suc.prems(2) by (rule store_le_trans)
  then have len: "length (Instances_of T g) = length (Instances_of C g)"
    using store_le_Instances_of [of C T g] by (simp add: list_all2_lengthD)
  have "foreach [0..<length (Instances_of C g)] (FixRefs_body d g) T = Inr (T, l')"
  proof (rule foreach_fixed [where R = store_le and T = T, OF run Suc.prems(2)])
    show "\<And>a b c. store_le a b \<Longrightarrow> store_le b c \<Longrightarrow> store_le a c"
      by (rule store_le_trans)
  next
    show "\<And>x s s' l. FixRefs_body d g x s = Inr (s', l) \<Longrightarrow> store_le s s'"
      by (rule FixRefs_body_store_le)
  next
    fix i s s' m
    assume i: "i \<in> set [0..<length (Instances_of C g)]"
      and step: "FixRefs_body d g i s = Inr (s', m)" and le: "store_le s' T"
    let ?k = "ParentID (Instances_of s g ! i)"
    have sT: "store_le s T"
      using FixRefs_body_store_le [OF step] le by (rule store_le_trans)
    have all: "list_all2 (link_step (Keys s)) (Instances_of s g) (Instances_of T g)"
      using sT by (rule store_le_Instances_of)
    from i len have iT: "i < length (Instances_of T g)" by simp
    with all have i_s: "i < length (Instances_of s g)" by (simp add: list_all2_lengthD)
    from all iT have step_i: "link_step (Keys s) (Instances_of s g ! i) (Instances_of T g ! i)"
      by (rule list_all2_nthD2)
    then have k: "ParentID (Instances_of T g ! i) = ?k" by (rule link_step_ParentID)
    have keys: "Keys T = Keys s" using sT by (rule store_le_Keys)
    show "FixRefs_body d g i T = Inr (T, m)"
    proof (cases "ContainsKey s ?k")
      case True
      with step have call: "FixRefs d (set_Parent s g i ?k) ?k = Inr (s', m)"
        by (simp add: FixRefs_body_def Let_def)
      from Suc.IH [OF call le] have "FixRefs d T ?k = Inr (T, m)" .
      moreover have "set_Parent T g i ?k = T"
      proof (rule set_Parent_same)
        have "store_le (set_Parent s g i ?k) T"
          using FixRefs_store_le [OF call] le by (rule store_le_trans)
        from store_le_Instances_of [OF this, of g] iT
        have "link_step (Keys (set_Parent s g i ?k))
           (Instances_of (set_Parent s g i ?k) g ! i) (Instances_of T g ! i)"
          by (rule list_all2_nthD2)
        then have "link_step (Keys s) ((Instances_of s g ! i)\<lparr>Parent := Some ?k\<rparr>)
            (Instances_of T g ! i)"
          using i_s by (simp add: Instances_of_set_Parent Keys_set_Parent)
        from link_step_linked [OF this] show "Parent (Instances_of T g ! i) = Some ?k"
          by simp
      qed
      ultimately show ?thesis
        using True k keys by (simp add: FixRefs_body_def Let_def ContainsKey_Keys)
    next
      case False
      with step k keys show ?thesis
        by (simp add: FixRefs_body_def Let_def ContainsKey_Keys)
    qed
  qed
  with l len show ?case unfolding FixRefs_Suc by simp
qed

lemma link_step_update:
  assumes "k = ParentID (vs ! i)" and "k \<in> K"
  shows "list_all2 (link_step K) vs (vs[i := (vs ! i)\<lparr>Parent := Some k\<rparr>])"
proof -
  have "link_step K (vs ! i) ((vs ! i)\<lparr>Parent := Some k\<rparr>)"
    using assms by (simp add: link_step_def)
  from list_all2_update_cong [OF list_all2_link_step_refl this, of vs i]
  show ?thesis by simp
qed

lemma set_Parent_Group_sel:
  "Group.Material (set_Parent_Group grp i k) = Group.Material grp"
  "Group.Groups (set_Parent_Group grp i k) = Group.Groups grp"
  "Group.Surfaces (set_Parent_Group grp i k) = Group.Surfaces grp"
  "Group.Instances (set_Parent_Group grp i k) =
     (Group.Instances grp)[i := (Group.Instances grp ! i)\<lparr>Parent := Some k\<rparr>]"
  by (simp_all add: set_Parent_Group_def)

lemma set_Parent_Group_same:
  assumes "i < length (Group.Instances w) \<Longrightarrow> Parent (Group.Instances w ! i) = Some k"
  shows "set_Parent_Group w i k = w"
proof -
  have "(Group.Instances w)[i := (Group.Instances w ! i)\<lparr>Parent := Some k\<rparr>] = Group.Instances w"
    using assms
    by (cases "i < length (Group.Instances w)") (simp_all add: list_update_same_conv list_update_beyond)
  then show ?thesis by (simp add: set_Parent_Group_def)
qed

lemma group_state_le_trans:
  "group_state_le a b \<Longrightarrow> group_state_le b c \<Longrightarrow> group_state_le a c"
  using store_le_Keys [of "fst a" "fst b"]
  by (auto simp add: group_state_le_def intro: store_le_trans list_all2_link_step_trans)

lemma FixRefs_Group_body_le:
  assumes "FixRefs_Group_body d i (s, h) = Inr ((s', h'), l)"
  shows "store_le s s'"
    and "list_all2 (link_step (Keys s)) (Group.Instances h) (Group.Instances h')"
    and "Group.Material h' = Group.Material h"
    and "Group.Groups h' = Group.Groups h"
    and "Group.Surfaces h' = Group.Surfaces h"
proof -
  let ?k = "ParentID (Group.Instances h ! i)"
  have "store_le s s' \<and> list_all2 (link_step (Keys s)) (Group.Instances h) (Group.Instances h')
    \<and> Group.Material h' = Group.Material h \<and> Group.Groups h' = Group.Groups h
    \<and> Group.Surfaces h' = Group.Surfaces h"
  proof (cases "ContainsKey s ?k")
    case True
    with assms have call: "FixRefs d s ?k = Inr (s', l)" and h': "h' = set_Parent_Group h i ?k"
      by (auto simp add: FixRefs_Group_body_def Let_def split: sum.splits prod.splits)
    from True have "?k \<in> Keys s" by (simp add: ContainsKey_Keys)
    with h' FixRefs_store_le [OF call] show ?thesis
      by (simp add: set_Parent_Group_sel link_step_update)
  next
    case False
    with assms show ?thesis
      by (simp add: FixRefs_Group_body_def Let_def store_le_refl list_all2_link_step_refl)
  qed
  then show "store_le s s'"
    and "list_all2 (link_step (Keys s)) (Group.Instances h) (Group.Instances h')"
    and "Group.Material h' = Group.Material h"
    and "Group.Groups h' = Group.Groups h"
    and "Group.Surfaces h' = Group.Surfaces h" by simp_all
qed

lemma FixRefs_Group_le:
  assumes "FixRefs_Group d C grp = Inr ((C', grp'), l)"
  shows "store_le C C'
    \<and> list_all2 (link_step (Keys C)) (Group.Instances grp) (Group.Instances grp')
    \<and> Group.Material grp' = Group.Material grp \<and> Group.Groups grp' = Group.Groups grp
    \<and> Group.Surfaces grp' = Group.Surfaces grp"
proof (cases d)
  case 0
  with assms show ?thesis by simp
next
  case (Suc d')
  with assms have run: "foreach [0..<length (Group.Instances grp)] (FixRefs_Group_body d')
      (C, grp) = Inr ((C', grp'), l)"
    by (simp add: FixRefs_Group_Suc del: FixRefs_Group.simps)
  let ?I = "\<lambda>p. store_le C (fst p)
    \<and> list_all2 (link_step (Keys C)) (Group.Instances grp) (Group.Instances (snd p))
    \<and> Group.Material (snd p) = Group.Material grp \<and> Group.Groups (snd p) = Group.Groups grp
    \<and> Group.Surfaces (snd p) = Group.Surfaces grp"
  have "?I (C', grp')"
  proof (rule foreach_invariant [where I = ?I, OF run])
    show "?I (C, grp)" by (simp add: store_le_refl list_all2_link_step_refl)
  next
    fix i p p' m
    assume inv: "?I p" and step: "FixRefs_Group_body d' i p = Inr (p', m)"
    obtain s h s' h' where p: "p = (s, h)" "p' = (s', h')" by (cases p, cases p') auto
    from inv p have keys: "Keys s = Keys C" by (simp add: store_le_Keys)
    from FixRefs_Group_body_le [OF step [unfolded p]] inv p keys
    show "?I p'"
      by (auto intro: store_le_trans list_all2_link_step_trans)
  qed
  then show ?thesis by simp
qed

lemma FixRefs_Group_fixed:
  assumes "FixRefs_Group d C grp = Inr ((C', grp'), l)" and "store_le C' T"
    and "list_all2 (link_step (Keys C)) (Group.Instances grp') (Group.Instances w)"
  shows "FixRefs_Group d T w = Inr ((T, w), l)"
proof (cases d)
  case 0
  with assms show ?thesis by simp
next
  case (Suc d')
  with assms have run: "foreach [0..<length (Group.Instances grp)] (FixRefs_Group_body d')
      (C, grp) = Inr ((C', grp'), l)"
    by (simp add: FixRefs_Group_Suc del: FixRefs_Group.simps)
  from FixRefs_Group_le [OF assms(1)] have
    CC': "store_le C C'" and
    gg': "list_all2 (link_step (Keys C)) (Group.Instances grp) (Group.Instances grp')"
    by simp_all
  from gg' assms(3) have len: "length (Group.Instances w) = length (Group.Instances grp)"
    by (simp add: list_all2_lengthD)
  have target: "group_state_le (C', grp') (T, w)"
    using assms(2,3) store_le_Keys [OF CC'] by (simp add: group_state_le_def)
  have "foreach [0..<length (Group.Instances grp)] (FixRefs_Group_body d') (T, w)
      = Inr ((T, w), l)"
  proof (rule foreach_fixed [where R = group_state_le and T = "(T, w)", OF run target])
    show "\<And>a b c. group_state_le a b \<Longrightarrow> group_state_le b c \<Longrightarrow> group_state_le a c"
      by (rule group_state_le_trans)
  next
    fix i p p' m
    assume "FixRefs_Group_body d' i p = Inr (p', m)"
    then show "group_state_le p p'"
      using FixRefs_Group_body_le(1,2) [of d' i "fst p" "snd p" "fst p'" "snd p'" m]
      by (simp add: group_state_le_def)
  next
    fix i p p' m
    assume i: "i \<in> set [0..<length (Group.Instances grp)]"
      and step: "FixRefs_Group_body d' i p = Inr (p', m)"
      and le: "group_state_le p' (T, w)"
    obtain s h s' h' where p: "p = (s, h)" "p' = (s', h')" by (cases p, cases p') auto
    note body = FixRefs_Group_body_le [OF step [unfolded p]]
    let ?k = "ParentID (Group.Instances h ! i)"
    from le p have s'T: "store_le s' T"
      and h'w: "list_all2 (link_step (Keys s')) (Group.Instances h') (Group.Instances w)"
      by (simp_all add: group_state_le_def)
    have keys': "Keys s' = Keys s" using body(1) by (rule store_le_Keys)
    have keysT: "Keys T = Keys s" using s'T keys' by (simp add: store_le_Keys)
    from i len have iw: "i < length (Group.Instances w)" by simp
    from h'w iw have step': "link_step (Keys s) (Group.Instances h' ! i) (Group.Instances w ! i)"
      unfolding keys' by (rule list_all2_nthD2)
    from h'w iw have ih': "i < length (Group.Instances h')" by (simp add: list_all2_lengthD)
    with body(2) have ih: "i < length (Group.Instances h)" by (simp add: list_all2_lengthD)
    from body(2) ih' have "link_step (Keys s) (Group.Instances h ! i) (Group.Instances h' ! i)"
      by (rule list_all2_nthD2)
    with step' have k: "ParentID (Group.Instances w ! i) = ?k"
      by (simp add: link_step_ParentID)
    show "FixRefs_Group_body d' i (T, w) = Inr ((T, w), m)"
    proof (cases "ContainsKey s ?k")
      case True
      with step p have call: "FixRefs d' s ?k = Inr (s', m)"
        and h': "h' = set_Parent_Group h i ?k"
        by (auto simp add: FixRefs_Group_body_def Let_def split: sum.splits prod.splits)
      from FixRefs_fixed [OF call s'T] have "FixRefs d' T ?k = Inr (T, m)" .
      moreover have "set_Parent_Group w i ?k = w"
      proof (rule set_Parent_Group_same)
        from h' ih have "Group.Instances h' ! i = (Group.Instances h ! i)\<lparr>Parent := Some ?k\<rparr>"
          by (simp add: set_Parent_Group_sel)
        with step' have "link_step (Keys s) ((Group.Instances h ! i)\<lparr>Parent := Some ?k\<rparr>)
            (Group.Instances w ! i)" by simp
        from link_step_linked [OF this] show "Parent (Group.Instances w ! i) = Some ?k" by simp
      qed
      ultimately show ?thesis
        using True k keysT by (simp add: FixRefs_Group_body_def Let_def ContainsKey_Keys)
    next
      case False
      with step p k keysT show ?thesis
        by (auto simp add: FixRefs_Group_body_def Let_def ContainsKey_Keys)
    qed
  qed
  with Suc len show ?thesis by (simp add: FixRefs_Group_Suc del: FixRefs_Group.simps)
qed

lemma all_Instances_sel:
  "all_Instances g = Group.Instances g @ concat (map all_Instances (Group.Groups g))"
  by (cases g) simp

lemma all_Instances_FixMaterialRefs:
  "all_Instances (FixMaterialRefs g) = all_Instances g"
  and "concat (map all_Instances (FixMaterialRefs_Groups pm gs)) = concat (map all_Instances gs)"
  by (induction g and pm gs rule: FixMaterialRefs_FixMaterialRefs_Groups.induct) simp_all

lemma LoadModel_Components_le:
  assumes "LoadModel_Components d C = Inr (C', l)"
  shows "store_le C C'"
proof (rule foreach_invariant [where I = "store_le C", OF assms [unfolded LoadModel_Components_def]])
  show "store_le C C" by (rule store_le_refl)
next
  fix k s s' m
  assume "store_le C s" "FixRefs d s k = Inr (s', m)"
  then show "store_le C s'" using FixRefs_store_le [of d s k s' m] by (blast intro: store_le_trans)
qed

lemma LoadModel_Components_fixed:
  assumes "LoadModel_Components d C = Inr (C', l)" and "store_le C' T"
  shows "LoadModel_Components d T = Inr (T, l)"
proof -
  have "store_le C T" using LoadModel_Components_le [OF assms(1)] assms(2) by (rule store_le_trans)
  then have keys: "map fst T = map fst C" by (rule store_le_keys)
  have "foreach (map fst C) (\<lambda>k C. FixRefs d C k) T = Inr (T, l)"
  proof (rule foreach_fixed [where R = store_le and T = T,
        OF assms(1) [unfolded LoadModel_Components_def] assms(2)])
    show "\<And>a b c. store_le a b \<Longrightarrow> store_le b c \<Longrightarrow> store_le a c" by (rule store_le_trans)
    show "\<And>x s s' l. FixRefs d s x = Inr (s', l) \<Longrightarrow> store_le s s'" by (rule FixRefs_store_le)
    show "\<And>x s s' l. FixRefs d s x = Inr (s', l) \<Longrightarrow> store_le s' T \<Longrightarrow> FixRefs d T x = Inr (T, l)"
      by (rule FixRefs_fixed)
  qed
  with keys show ?thesis by (simp add: LoadModel_Components_def)
qed

lemma LoadModel_Groups_le:
  "LoadModel_Groups d inh gs C = Inr ((C', gs'), l) \<Longrightarrow>
   store_le C C'
   \<and> list_all2 (\<lambda>g g'. list_all2 (link_step (Keys C)) (all_Instances g) (all_Instances g')) gs gs'"
proof (induction gs arbitrary: C gs' l)
  case Nil
  then show ?case by (simp add: store_le_refl)
next
  case (Cons var rest)
  from Cons.prems obtain C1 var' l1 rest' l2 where
    head: "FixRefs_Group d C var = Inr ((C1, var'), l1)"
    and tail: "LoadModel_Groups d inh rest C1 = Inr ((C', rest'), l2)"
    and gs': "gs' = (if inh then FixMaterialRefs var' else var') # rest'"
    by (auto simp add: Let_def split: sum.splits prod.splits)
  note h = FixRefs_Group_le [OF head]
  from h have keys: "Keys C1 = Keys C" by (simp add: store_le_Keys)
  from h have "list_all2 (link_step (Keys C)) (all_Instances var) (all_Instances var')"
    by (simp add: all_Instances_sel [of var] all_Instances_sel [of var']
        list_all2_appendI list_all2_link_step_refl)
  then have "list_all2 (link_step (Keys C)) (all_Instances var)
      (all_Instances (if inh then FixMaterialRefs var' else var'))"
    by (simp add: all_Instances_FixMaterialRefs)
  with Cons.IH [OF tail] h keys gs' show ?case
    by (auto intro: store_le_trans)
qed

lemma LoadModel_Groups_fixed:
  "LoadModel_Groups d inh gs C = Inr ((C', gs'), l) \<Longrightarrow> store_le C' T \<Longrightarrow>
   LoadModel_Groups d inh gs' T = Inr ((T, gs'), l)"
proof (induction gs arbitrary: C gs' l)
  case Nil
  then show ?case by simp
next
  case (Cons var rest)
  from Cons.prems(1) obtain C1 var' l1 rest' l2 where
    head: "FixRefs_Group d C var = Inr ((C1, var'), l1)"
    and tail: "LoadModel_Groups d inh rest C1 = Inr ((C', rest'), l2)"
    and gs': "gs' = (if inh then FixMaterialRefs var' else var') # rest'"
    and l: "l = l1 @ l2"
    by (auto simp add: Let_def split: sum.splits prod.splits)
  let ?w = "if inh then FixMaterialRefs var' else var'"
  have "store_le C1 T"
    using LoadModel_Groups_le [OF tail] Cons.prems(2) by (blast intro: store_le_trans)
  moreover have "list_all2 (link_step (Keys C)) (Group.Instances var') (Group.Instances ?w)"
    by (simp add: FixMaterialRefs_sel list_all2_link_step_refl)
  ultimately have "FixRefs_Group d T ?w = Inr ((T, ?w), l1)"
    using FixRefs_Group_fixed [OF head] by blast
  moreover have "(if inh then FixMaterialRefs ?w else ?w) = ?w"
    by (simp add: FixMaterialRefs_idem)
  moreover note Cons.IH [OF tail Cons.prems(2)]
  ultimately show ?case using gs' l by (simp add: Let_def)
qed

lemma LoadModel_Instances_idem:
  "Keys C' = Keys C \<Longrightarrow>
   LoadModel_Instances C' (LoadModel_Instances C insts) = LoadModel_Instances C insts"
  by (simp add: LoadModel_Instances_def ContainsKey_Keys)

lemma LoadModel_Instances_link_step:
  "list_all2 (link_step (Keys C)) insts (LoadModel_Instances C insts)"
  by (simp add: LoadModel_Instances_def list_all2_map2 list_all2_same link_step_def ContainsKey_Keys)

lemma LoadModel_FixRefs_fixed:
  assumes "LoadModel_FixRefs d inh this = Inr (this', log)"
  shows "LoadModel_FixRefs d inh this' = Inr (this', log)"
proof -
  let ?I = "LoadModel_Instances (Components this) (SketchUp.Instances this)"
  from assms obtain C1 l1 C2 G l2 where
    comps: "LoadModel_Components d (Components this) = Inr (C1, l1)"
    and groups: "LoadModel_Groups d inh (SketchUp.Groups this) C1 = Inr ((C2, G), l2)"
    and this': "this' = this\<lparr>SketchUp.Instances := ?I, Components := C2, SketchUp.Groups := G\<rparr>"
    and log: "log = l1 @ l2"
    by (auto simp add: LoadModel_FixRefs_def Let_def split: sum.splits prod.splits)
  have le12: "store_le C1 C2" using LoadModel_Groups_le [OF groups] by simp
  have "Keys C2 = Keys (Components this)"
    using le12 LoadModel_Components_le [OF comps] by (simp add: store_le_Keys)
  then have "LoadModel_Instances C2 ?I = ?I" by (rule LoadModel_Instances_idem)
  moreover have "LoadModel_Components d C2 = Inr (C2, l1)"
    using comps le12 by (rule LoadModel_Components_fixed)
  moreover have "LoadModel_Groups d inh G C2 = Inr ((C2, G), l2)"
    using groups store_le_refl by (rule LoadModel_Groups_fixed)
  ultimately show ?thesis
    using this' log by (simp add: LoadModel_FixRefs_def)
qed

lemma example_extracted_links:
  "LoadModel_FixRefs 3 True example_extracted =
     Inr (example_loaded False, [''A'', ''B'', ''B'', ''A'', ''B''])"
  by (simp add: example_defs example_extracted_def example_group_def LoadModel_defs numeral_3_eq_3)

subsection \<open>Acyclic graphs return, cyclic graphs overflow\<close>

text \<open>
  On an acyclic store an activation returns as soon as the stack has room for more
  activations than the rank of its definition (\<open>FixRefs_returns\<close>); on a definition that
  lies on a cycle it overflows whatever the room (\<open>FixRefs_overflows\<close>).
\<close>

lemma Instances_of_absent: "g \<notin> Keys C \<Longrightarrow> Instances_of C g = []"
proof -
  assume "g \<notin> Keys C"
  then have "map_of C g = None" by (simp add: Keys_def map_of_eq_None_iff)
  then show ?thesis by (simp add: Instances_of_def)
qed

lemma store_le_ParentIDs:
  assumes "store_le C C'"
  shows "map ParentID (Instances_of C' g) = map ParentID (Instances_of C g)"
proof -
  have "list_all2 (link_step (Keys C)) (Instances_of C g) (Instances_of C' g)"
    using assms by (rule store_le_Instances_of)
  then show ?thesis
    by (induction rule: list_all2_induct) (simp_all add: link_step_ParentID)
qed

lemma store_le_length:
  "store_le C C' \<Longrightarrow> length (Instances_of C' g) = length (Instances_of C g)"
  using store_le_ParentIDs [of C C' g] by (metis length_map)

lemma store_le_ParentID_nth:
  assumes "store_le C C'" and "i < length (Instances_of C g)"
  shows "ParentID (Instances_of C' g ! i) = ParentID (Instances_of C g ! i)"
proof -
  have "map ParentID (Instances_of C' g) ! i = map ParentID (Instances_of C g) ! i"
    using store_le_ParentIDs [OF assms(1)] by simp
  with assms store_le_length [OF assms(1), of g] show ?thesis by simp
qed

lemma acyclic_by_store_le:
  assumes "store_le C C'" and "acyclic_by rank C"
  shows "acyclic_by rank C'"
proof -
  have "ParentID ` set (Instances_of C' g) = ParentID ` set (Instances_of C g)" for g
    using store_le_ParentIDs [OF assms(1), of g] by (metis set_map)
  then have "\<And>g var. var \<in> set (Instances_of C' g) \<Longrightarrow>
      \<exists>old \<in> set (Instances_of C g). ParentID old = ParentID var"
    by (metis (no_types, lifting) image_iff)
  with assms(2) show ?thesis
    unfolding acyclic_by_def store_le_Keys [OF assms(1)] by metis
qed

lemma cycle_in_store_le:
  assumes "store_le C C'" and "cycle_in S C"
  shows "cycle_in S C'"
proof -
  have "ParentID ` set (Instances_of C' g) = ParentID ` set (Instances_of C g)" for g
    using store_le_ParentIDs [OF assms(1), of g] by (metis set_map)
  then have "\<And>g var. var \<in> set (Instances_of C g) \<Longrightarrow>
      \<exists>new \<in> set (Instances_of C' g). ParentID new = ParentID var"
    by (metis (no_types, lifting) image_iff)
  with assms(2) show ?thesis
    unfolding cycle_in_def store_le_Keys [OF assms(1)] by metis
qed

lemma foreach_returns:
  assumes "I s"
    and "\<And>x s. x \<in> set xs \<Longrightarrow> I s \<Longrightarrow> \<exists>s' l. body x s = Inr (s', l) \<and> I s'"
  shows "\<exists>s' l. foreach xs body s = Inr (s', l) \<and> I s'"
  using assms
proof (induction xs arbitrary: s)
  case Nil
  then show ?case by simp
next
  case (Cons x xs)
  from Cons.prems(2) [of x s] Cons.prems(1) obtain s1 l1 where
    step: "body x s = Inr (s1, l1)" and inv: "I s1" by auto
  have "\<exists>s' l. foreach xs body s1 = Inr (s', l) \<and> I s'"
    by (rule Cons.IH [OF inv]) (use Cons.prems(2) in auto)
  with step show ?case by auto
qed

lemma foreach_throws_only:
  assumes "foreach xs body s = Inl e"
  shows "\<exists>x \<in> set xs. \<exists>t. body x t = Inl e"
  using assms
proof (induction xs arbitrary: s)
  case Nil
  then show ?case by simp
next
  case (Cons x xs)
  show ?case
  proof (cases "body x s")
    case (Inl e')
    with Cons.prems show ?thesis by auto
  next
    case (Inr p)
    with Cons.prems have "foreach xs body (fst p) = Inl e"
      by (cases p) (auto split: sum.splits prod.splits)
    from Cons.IH [OF this] show ?thesis by auto
  qed
qed

lemma foreach_throws:
  assumes "x \<in> set xs" and "I s"
    and pres: "\<And>y s s' l. y \<in> set xs \<Longrightarrow> I s \<Longrightarrow> body y s = Inr (s', l) \<Longrightarrow> I s'"
    and throws: "\<And>s. I s \<Longrightarrow> \<exists>e. body x s = Inl e"
  shows "\<exists>e. foreach xs body s = Inl e"
  using assms(1,2) pres
proof (induction xs arbitrary: s)
  case Nil
  then show ?case by simp
next
  case (Cons y ys)
  show ?case
  proof (cases "body y s")
    case (Inl e)
    then show ?thesis by simp
  next
    case (Inr p)
    obtain s1 l1 where p: "p = (s1, l1)" by (cases p)
    with Inr Cons.prems(2,3) have inv: "I s1" by auto
    have "y \<noteq> x" using Inr throws [OF Cons.prems(2)] by auto
    with Cons.prems(1) have "x \<in> set ys" by simp
    have "\<exists>e. foreach ys body s1 = Inl e"
      by (rule Cons.IH [OF \<open>x \<in> set ys\<close> inv]) (use Cons.prems(3) in auto)
    with Inr p show ?thesis by auto
  qed
qed

lemma FixRefs_throws_only:
  "FixRefs d C g = Inl e \<Longrightarrow> e = StackOverflowException"
proof (induction d arbitrary: C g)
  case 0
  then show ?case by simp
next
  case (Suc d)
  from Suc.prems have "foreach [0..<length (Instances_of C g)] (FixRefs_body d g) C = Inl e"
    by (simp add: FixRefs_Suc del: FixRefs.simps split: sum.splits prod.splits)
  from foreach_throws_only [OF this] obtain i t where "FixRefs_body d g i t = Inl e" by blast
  then show ?case
    using Suc.IH by (auto simp add: FixRefs_body_def Let_def split: if_splits)
qed

lemma FixRefs_returns:
  "acyclic_by rank C \<Longrightarrow> rank g < d \<Longrightarrow> \<exists>C' l. FixRefs d C g = Inr (C', l)"
proof (induction d arbitrary: C g)
  case 0
  then show ?case by simp
next
  case (Suc d)
  let ?I = "\<lambda>s. store_le C s"
  have "\<exists>s' l. foreach [0..<length (Instances_of C g)] (FixRefs_body d g) C = Inr (s', l) \<and> ?I s'"
  proof (rule foreach_returns [where I = ?I])
    show "store_le C C" by (rule store_le_refl)
  next
    fix i s
    assume i: "i \<in> set [0..<length (Instances_of C g)]" and inv: "store_le C s"
    let ?k = "ParentID (Instances_of s g ! i)"
    have keys: "Keys s = Keys C" using inv by (rule store_le_Keys)
    show "\<exists>s' l. FixRefs_body d g i s = Inr (s', l) \<and> store_le C s'"
    proof (cases "ContainsKey s ?k")
      case True
      have le: "store_le s (set_Parent s g i ?k)" using True by (rule store_le_set_Parent)
      with inv have le': "store_le C (set_Parent s g i ?k)" by (rule store_le_trans)
      have "g \<in> Keys C"
      proof (rule ccontr)
        assume "g \<notin> Keys C"
        then have "Instances_of C g = []" by (rule Instances_of_absent)
        with i show False by simp
      qed
      moreover have "Instances_of C g ! i \<in> set (Instances_of C g)" using i by simp
      moreover have k: "?k = ParentID (Instances_of C g ! i)"
        using store_le_ParentID_nth [OF inv, of i g] i by simp
      ultimately have "rank ?k < rank g"
        using Suc.prems(1) True unfolding acyclic_by_def ContainsKey_Keys keys by metis
      with Suc.prems(2) have "rank ?k < d" by simp
      from Suc.IH [OF acyclic_by_store_le [OF le' Suc.prems(1)] this]
      obtain C' l where call: "FixRefs d (set_Parent s g i ?k) ?k = Inr (C', l)" by blast
      from FixRefs_store_le [OF call] le' have "store_le C C'" by (blast intro: store_le_trans)
      with call True show ?thesis by (simp add: FixRefs_body_def Let_def)
    next
      case False
      with inv show ?thesis by (simp add: FixRefs_body_def Let_def)
    qed
  qed
  then show ?case by (auto simp add: FixRefs_Suc simp del: FixRefs.simps)
qed

lemma FixRefs_overflows:
  "cycle_in S C \<Longrightarrow> g \<in> S \<Longrightarrow> FixRefs d C g = Inl StackOverflowException"
proof (induction d arbitrary: C g)
  case 0
  then show ?case by simp
next
  case (Suc d)
  from Suc.prems obtain var where var: "var \<in> set (Instances_of C g)" "ParentID var \<in> S"
    unfolding cycle_in_def by blast
  then obtain i where i: "i < length (Instances_of C g)" "Instances_of C g ! i = var"
    by (auto simp add: in_set_conv_nth)
  have "\<exists>e. foreach [0..<length (Instances_of C g)] (FixRefs_body d g) C = Inl e"
  proof (rule foreach_throws [where I = "store_le C" and x = i])
    show "i \<in> set [0..<length (Instances_of C g)]" using i by simp
    show "store_le C C" by (rule store_le_refl)
  next
    fix j s s' l
    assume "store_le C s" "FixRefs_body d g j s = Inr (s', l)"
    then show "store_le C s'" using FixRefs_body_store_le by (blast intro: store_le_trans)
  next
    fix s
    assume inv: "store_le C s"
    let ?k = "ParentID (Instances_of s g ! i)"
    have k: "?k = ParentID var" using store_le_ParentID_nth [OF inv i(1)] i(2) by simp
    with var Suc.prems(1) have "?k \<in> Keys C" unfolding cycle_in_def by auto
    then have key: "ContainsKey s ?k" using store_le_Keys [OF inv] by (simp add: ContainsKey_Keys)
    have "store_le C (set_Parent s g i ?k)"
      using inv store_le_set_Parent [OF key] by (rule store_le_trans)
    from cycle_in_store_le [OF this Suc.prems(1)] var k
    have "FixRefs d (set_Parent s g i ?k) ?k = Inl StackOverflowException"
      by (intro Suc.IH) simp_all
    with key show "\<exists>e. FixRefs_body d g i s = Inl e" by (simp add: FixRefs_body_def Let_def)
  qed
  then obtain e where "FixRefs (Suc d) C g = Inl e"
    by (auto simp add: FixRefs_Suc simp del: FixRefs.simps)
  with FixRefs_throws_only [of "Suc d" C g e] show ?case by simp
qed

subsection \<open>Every visited instance ends linked\<close>

lemma foreach_establishes:
  assumes "foreach xs body s = Inr (s', l)" and "I s"
    and step: "\<And>x s s' l. x \<in> set xs \<Longrightarrow> I s \<Longrightarrow> body x s = Inr (s', l) \<Longrightarrow> I s' \<and> Q x s'"
    and keep: "\<And>x y s s' l. y \<in> set xs \<Longrightarrow> I s \<Longrightarrow> body y s = Inr (s', l) \<Longrightarrow> Q x s
        \<Longrightarrow> Q x s'"
  shows "\<forall>x \<in> set xs. Q x s'"
  using assms
proof (induction xs arbitrary: s l)
  case Nil
  then show ?case by simp
next
  case (Cons x xs)
  from Cons.prems(1) obtain s1 l1 l2 where
    first: "body x s = Inr (s1, l1)" and rest: "foreach xs body s1 = Inr (s', l2)"
    by (auto split: sum.splits prod.splits)
  from Cons.prems(3) [of x s s1 l1] Cons.prems(2) first have inv: "I s1" and q: "Q x s1"
    by simp_all
  have "I s' \<and> Q x s'"
  proof (rule foreach_invariant [where I = "\<lambda>t. I t \<and> Q x t", OF rest])
    show "I s1 \<and> Q x s1" using inv q by simp
  next
    fix y t t' m
    assume "y \<in> set xs" "I t \<and> Q x t" "body y t = Inr (t', m)"
    then show "I t' \<and> Q x t'"
      using Cons.prems(3) [of y t t' m] Cons.prems(4) [of y t t' m x] by simp
  qed
  moreover have "\<forall>y \<in> set xs. Q y s'"
  proof (rule Cons.IH [OF rest inv])
    fix y t t' m
    assume "y \<in> set xs" "I t" "body y t = Inr (t', m)"
    then show "I t' \<and> Q y t'" using Cons.prems(3) [of y t t' m] by simp
  next
    fix z y t t' m
    assume "y \<in> set xs" "I t" "body y t = Inr (t', m)" "Q z t"
    then show "Q z t'" using Cons.prems(4) [of y t t' m z] by simp
  qed
  ultimately show ?case by simp
qed

lemma list_all2_keeps_linked:
  assumes "list_all2 (link_step K) old new" and "i < length new"
    and "linked_to_definition K (old ! i)"
  shows "linked_to_definition K (new ! i)"
  using list_all2_nthD2 [OF assms(1,2)] assms(3) by (rule link_step_keeps_linked)

lemma list_all2_keeps_all_linked:
  assumes "list_all2 (link_step K) old new"
    and "\<forall>var \<in> set old. linked_to_definition K var"
  shows "\<forall>var \<in> set new. linked_to_definition K var"
  using assms by (induction rule: list_all2_induct) (auto intro: link_step_keeps_linked)

lemma FixRefs_links:
  assumes "FixRefs d C g = Inr (C', l)"
  shows "\<forall>var \<in> set (Instances_of C' g). linked_to_definition (Keys C) var"
proof (cases d)
  case 0
  with assms show ?thesis by simp
next
  case (Suc d')
  let ?K = "Keys C"
  let ?Q = "\<lambda>i s. i < length (Instances_of s g) \<longrightarrow> linked_to_definition ?K (Instances_of s g ! i)"
  from assms Suc obtain l' where
    run: "foreach [0..<length (Instances_of C g)] (FixRefs_body d' g) C = Inr (C', l')"
    by (auto simp add: FixRefs_Suc simp del: FixRefs.simps split: sum.splits prod.splits)
  have all: "\<forall>i \<in> set [0..<length (Instances_of C g)]. ?Q i C'"
  proof (rule foreach_establishes [where I = "store_le C" and Q = ?Q, OF run])
    show "store_le C C" by (rule store_le_refl)
  next
    fix i s s' m
    assume inv: "store_le C s" and step: "FixRefs_body d' g i s = Inr (s', m)"
    let ?k = "ParentID (Instances_of s g ! i)"
    have keys: "Keys s = ?K" using inv by (rule store_le_Keys)
    have ss': "store_le s s'" using step by (rule FixRefs_body_store_le)
    have "?Q i s'"
    proof
      assume i': "i < length (Instances_of s' g)"
      then have i_s: "i < length (Instances_of s g)" using store_le_length [OF ss'] by simp
      show "linked_to_definition ?K (Instances_of s' g ! i)"
      proof (cases "ContainsKey s ?k")
        case True
        with step have call: "FixRefs d' (set_Parent s g i ?k) ?k = Inr (s', m)"
          by (simp add: FixRefs_body_def Let_def)
        have "list_all2 (link_step ?K) (Instances_of (set_Parent s g i ?k) g) (Instances_of s' g)"
          using store_le_Instances_of [OF FixRefs_store_le [OF call], of g]
          by (simp add: Keys_set_Parent keys)
        moreover have "linked_to_definition ?K (Instances_of (set_Parent s g i ?k) g ! i)"
          using i_s by (simp add: Instances_of_set_Parent linked_to_definition_def)
        ultimately show ?thesis using i' by (blast intro: list_all2_keeps_linked)
      next
        case False
        with step have "s' = s" by (simp add: FixRefs_body_def Let_def)
        with False keys show ?thesis
          by (simp add: linked_to_definition_def ContainsKey_Keys)
      qed
    qed
    with inv ss' show "store_le C s' \<and> ?Q i s'" by (blast intro: store_le_trans)
  next
    fix i j s s' m
    assume inv: "store_le C s" and step: "FixRefs_body d' g j s = Inr (s', m)" and q: "?Q i s"
    have ss': "store_le s s'" using step by (rule FixRefs_body_store_le)
    have keys: "Keys s = ?K" using inv by (rule store_le_Keys)
    show "?Q i s'"
    proof
      assume i': "i < length (Instances_of s' g)"
      then have "i < length (Instances_of s g)" using store_le_length [OF ss'] by simp
      with q have "linked_to_definition ?K (Instances_of s g ! i)" by simp
      with store_le_Instances_of [OF ss', of g] i' show
        "linked_to_definition ?K (Instances_of s' g ! i)"
        unfolding keys by (rule list_all2_keeps_linked)
    qed
  qed
  have "length (Instances_of C' g) = length (Instances_of C g)"
    using FixRefs_store_le [OF assms] by (rule store_le_length)
  with all show ?thesis by (auto simp add: in_set_conv_nth)
qed

lemma LoadModel_Components_links:
  assumes "LoadModel_Components d C = Inr (C', l)"
  shows "\<forall>g \<in> Keys C. \<forall>var \<in> set (Instances_of C' g). linked_to_definition (Keys C) var"
proof -
  let ?K = "Keys C"
  let ?Q = "\<lambda>g s. \<forall>var \<in> set (Instances_of s g). linked_to_definition ?K var"
  have "\<forall>g \<in> set (map fst C). ?Q g C'"
  proof (rule foreach_establishes [where I = "store_le C" and Q = ?Q,
        OF assms [unfolded LoadModel_Components_def]])
    show "store_le C C" by (rule store_le_refl)
  next
    fix g s s' m
    assume inv: "store_le C s" and step: "FixRefs d s g = Inr (s', m)"
    from FixRefs_links [OF step] store_le_Keys [OF inv] FixRefs_store_le [OF step] inv
    show "store_le C s' \<and> ?Q g s'" by (auto intro: store_le_trans)
  next
    fix g h s s' m
    assume inv: "store_le C s" and step: "FixRefs d s h = Inr (s', m)" and q: "?Q g s"
    from store_le_Instances_of [OF FixRefs_store_le [OF step], of g] q
    show "?Q g s'" unfolding store_le_Keys [OF inv] by (rule list_all2_keeps_all_linked)
  qed
  then show ?thesis by (simp add: Keys_def)
qed

lemma FixRefs_Group_links:
  assumes "FixRefs_Group d C grp = Inr ((C', grp'), l)"
  shows "\<forall>var \<in> set (Group.Instances grp'). linked_to_definition (Keys C) var"
proof (cases d)
  case 0
  with assms show ?thesis by simp
next
  case (Suc d')
  let ?K = "Keys C"
  let ?I = "\<lambda>p. Keys (fst p) = ?K"
  let ?Q = "\<lambda>i p. i < length (Group.Instances (snd p))
      \<longrightarrow> linked_to_definition ?K (Group.Instances (snd p) ! i)"
  from assms Suc have
    run: "foreach [0..<length (Group.Instances grp)] (FixRefs_Group_body d') (C, grp)
      = Inr ((C', grp'), l)"
    by (simp add: FixRefs_Group_Suc del: FixRefs_Group.simps)
  have all: "\<forall>i \<in> set [0..<length (Group.Instances grp)]. ?Q i (C', grp')"
  proof (rule foreach_establishes [where I = ?I and Q = ?Q, OF run])
    show "?I (C, grp)" by simp
  next
    fix i p p' m
    assume inv: "?I p" and step: "FixRefs_Group_body d' i p = Inr (p', m)"
    obtain s h s' h' where p: "p = (s, h)" "p' = (s', h')" by (cases p, cases p') auto
    note body = FixRefs_Group_body_le [OF step [unfolded p]]
    let ?k = "ParentID (Group.Instances h ! i)"
    from inv p have keys: "Keys s = ?K" by simp
    have "?Q i (s', h')"
    proof
      assume "i < length (Group.Instances (snd (s', h')))"
      then have i': "i < length (Group.Instances h')" by simp
      with body(2) have ih: "i < length (Group.Instances h)" by (simp add: list_all2_lengthD)
      show "linked_to_definition ?K (Group.Instances (snd (s', h')) ! i)"
      proof (cases "ContainsKey s ?k")
        case True
        with step p have "h' = set_Parent_Group h i ?k"
          by (auto simp add: FixRefs_Group_body_def Let_def split: sum.splits prod.splits)
        with ih show ?thesis by (simp add: set_Parent_Group_sel linked_to_definition_def)
      next
        case False
        with step p have "h' = h" by (simp add: FixRefs_Group_body_def Let_def)
        with False keys show ?thesis by (simp add: linked_to_definition_def ContainsKey_Keys)
      qed
    qed
    with body(1) keys p show "?I p' \<and> ?Q i p'" by (simp add: store_le_Keys)
  next
    fix i j p p' m
    assume inv: "?I p" and step: "FixRefs_Group_body d' j p = Inr (p', m)" and q: "?Q i p"
    obtain s h s' h' where p: "p = (s, h)" "p' = (s', h')" by (cases p, cases p') auto
    note body = FixRefs_Group_body_le [OF step [unfolded p]]
    from inv p have keys: "Keys s = ?K" by simp
    show "?Q i p'"
    proof
      assume "i < length (Group.Instances (snd p'))"
      then have i': "i < length (Group.Instances h')" using p by simp
      with body(2) have "i < length (Group.Instances h)" by (simp add: list_all2_lengthD)
      with q p have "linked_to_definition ?K (Group.Instances h ! i)" by simp
      with body(2) [unfolded keys] i' have "linked_to_definition ?K (Group.Instances h' ! i)"
        by (rule list_all2_keeps_linked)
      then show "linked_to_definition ?K (Group.Instances (snd p') ! i)" using p by simp
    qed
  qed
  have "length (Group.Instances grp') = length (Group.Instances grp)"
    using FixRefs_Group_le [OF assms] by (auto dest: list_all2_lengthD)
  with all show ?thesis by (auto simp add: in_set_conv_nth)
qed

lemma LoadModel_Groups_links:
  "LoadModel_Groups d inh gs C = Inr ((C', gs'), l) \<Longrightarrow>
   \<forall>grp \<in> set gs'. \<forall>var \<in> set (Group.Instances grp). linked_to_definition (Keys C) var"
proof (induction gs arbitrary: C gs' l)
  case Nil
  then show ?case by simp
next
  case (Cons var rest)
  from Cons.prems obtain C1 var' l1 rest' l2 where
    head: "FixRefs_Group d C var = Inr ((C1, var'), l1)"
    and tail: "LoadModel_Groups d inh rest C1 = Inr ((C', rest'), l2)"
    and gs': "gs' = (if inh then FixMaterialRefs var' else var') # rest'"
    by (auto simp add: Let_def split: sum.splits prod.splits)
  have "Keys C1 = Keys C" using FixRefs_Group_le [OF head] by (simp add: store_le_Keys)
  with Cons.IH [OF tail] FixRefs_Group_links [OF head] gs' show ?case
    by (simp add: FixMaterialRefs_sel)
qed

subsection \<open>The loops of LoadModel\<close>

lemma LoadModel_Components_returns:
  assumes "acyclic_by rank C" and "\<forall>g \<in> Keys C. rank g < d"
  shows "\<exists>C' l. LoadModel_Components d C = Inr (C', l)"
proof -
  have "\<exists>s' l. foreach (map fst C) (\<lambda>k C. FixRefs d C k) C = Inr (s', l) \<and> store_le C s'"
  proof (rule foreach_returns [where I = "store_le C"])
    show "store_le C C" by (rule store_le_refl)
  next
    fix g s
    assume g: "g \<in> set (map fst C)" and inv: "store_le C s"
    from g assms(2) have "rank g < d" by (auto simp add: Keys_def)
    from FixRefs_returns [OF acyclic_by_store_le [OF inv assms(1)] this]
    obtain C' l where call: "FixRefs d s g = Inr (C', l)" by blast
    with inv FixRefs_store_le [OF call] show "\<exists>s' l. FixRefs d s g = Inr (s', l) \<and> store_le C s'"
      by (blast intro: store_le_trans)
  qed
  then show ?thesis by (auto simp add: LoadModel_Components_def)
qed

lemma LoadModel_Components_overflows:
  assumes "cycle_in S C" and "S \<noteq> {}"
  shows "LoadModel_Components d C = Inl StackOverflowException"
proof -
  from assms obtain g where "g \<in> S" "g \<in> Keys C"
    unfolding cycle_in_def by auto
  then have g: "g \<in> S" "g \<in> set (map fst C)" by (simp_all add: Keys_def)
  have "\<exists>e. foreach (map fst C) (\<lambda>k C. FixRefs d C k) C = Inl e"
  proof (rule foreach_throws [where I = "store_le C" and x = g])
    show "g \<in> set (map fst C)" by (rule g(2))
    show "store_le C C" by (rule store_le_refl)
  next
    fix h s s' l
    assume "store_le C s" "FixRefs d s h = Inr (s', l)"
    then show "store_le C s'" using FixRefs_store_le by (blast intro: store_le_trans)
  next
    fix s
    assume "store_le C s"
    from FixRefs_overflows [OF cycle_in_store_le [OF this assms(1)] g(1)]
    show "\<exists>e. FixRefs d s g = Inl e" by blast
  qed
  then obtain e where e: "foreach (map fst C) (\<lambda>k C. FixRefs d C k) C = Inl e" by blast
  from foreach_throws_only [OF e] FixRefs_throws_only have "e = StackOverflowException" by blast
  with e show ?thesis by (simp add: LoadModel_Components_def)
qed

lemma FixRefs_Group_returns:
  assumes "acyclic_by rank C" and "\<forall>g \<in> Keys C. Suc (rank g) < d" and "0 < d"
  shows "\<exists>C' grp' l. FixRefs_Group d C grp = Inr ((C', grp'), l)"
proof -
  from assms(3) obtain d' where d: "d = Suc d'" by (cases d) auto
  have "\<exists>p l. foreach [0..<length (Group.Instances grp)] (FixRefs_Group_body d') (C, grp)
      = Inr (p, l) \<and> store_le C (fst p)"
  proof (rule foreach_returns [where I = "\<lambda>p. store_le C (fst p)"])
    show "store_le C (fst (C, grp))" by (simp add: store_le_refl)
  next
    fix i and p :: "Component Dictionary \<times> Group"
    assume inv: "store_le C (fst p)"
    obtain s h where p: "p = (s, h)" by (cases p)
    let ?k = "ParentID (Group.Instances h ! i)"
    from inv p have sC: "store_le C s" by simp
    show "\<exists>p' l. FixRefs_Group_body d' i p = Inr (p', l) \<and> store_le C (fst p')"
    proof (cases "ContainsKey s ?k")
      case True
      then have "?k \<in> Keys C" using store_le_Keys [OF sC] by (simp add: ContainsKey_Keys)
      with assms(2) d have "rank ?k < d'" by auto
      from FixRefs_returns [OF acyclic_by_store_le [OF sC assms(1)] this]
      obtain C' l where call: "FixRefs d' s ?k = Inr (C', l)" by blast
      from FixRefs_store_le [OF call] sC have "store_le C C'" by (blast intro: store_le_trans)
      with call True p show ?thesis by (simp add: FixRefs_Group_body_def Let_def)
    next
      case False
      with sC p show ?thesis by (simp add: FixRefs_Group_body_def Let_def)
    qed
  qed
  then obtain p l where "FixRefs_Group d C grp = Inr (p, l)"
    unfolding d by (auto simp add: FixRefs_Group_Suc simp del: FixRefs_Group.simps)
  then show ?thesis by (cases p) auto
qed

lemma LoadModel_Groups_returns:
  assumes "\<forall>g \<in> Keys C. Suc (rank g) < d" and "0 < d"
  shows "acyclic_by rank C \<Longrightarrow> Keys C0 = Keys C \<Longrightarrow> store_le C C0 \<Longrightarrow>
    \<exists>C' gs' l. LoadModel_Groups d inh gs C0 = Inr ((C', gs'), l)"
proof (induction gs arbitrary: C0)
  case Nil
  then show ?case by simp
next
  case (Cons var rest)
  have acyc: "acyclic_by rank C0" using Cons.prems(3,1) by (rule acyclic_by_store_le)
  from FixRefs_Group_returns [OF acyc _ assms(2), of var] assms(1) Cons.prems(2)
  obtain C1 var' l1 where head: "FixRefs_Group d C0 var = Inr ((C1, var'), l1)" by auto
  have le: "store_le C0 C1" using FixRefs_Group_le [OF head] by simp
  then have "Keys C1 = Keys C" using Cons.prems(2) by (simp add: store_le_Keys)
  moreover have "store_le C C1" using Cons.prems(3) le by (rule store_le_trans)
  ultimately obtain C' rest' l2 where
    "LoadModel_Groups d inh rest C1 = Inr ((C', rest'), l2)"
    using Cons.IH [OF Cons.prems(1)] by blast
  with head show ?case by (simp add: Let_def)
qed

lemma fold_snoc: "fold (\<lambda>x L. L @ [x]) xs L0 = L0 @ xs"
  by (induction xs arbitrary: L0) simp_all

lemma LoadModel_Definitions_Inr:
  "LoadModel_Definitions comps C0 = Inr C \<Longrightarrow> C = C0 @ dictionary_of comps"
proof (induction comps arbitrary: C0)
  case Nil
  then show ?case by (simp add: dictionary_of_def)
next
  case (Cons c comps)
  from Cons.prems have "LoadModel_Definitions comps (C0 @ [(Guid c, c)]) = Inr C"
    by (auto simp add: Add_def split: if_splits)
  from Cons.IH [OF this] show ?case by (simp add: dictionary_of_def)
qed

lemma LoadModel_Definitions_Inr_distinct:
  "LoadModel_Definitions comps C0 = Inr C \<Longrightarrow> distinct (map fst C0) \<Longrightarrow> distinct (map fst C)"
proof (induction comps arbitrary: C0)
  case Nil
  then show ?case by simp
next
  case (Cons c comps)
  from Cons.prems(1) have new: "\<not> ContainsKey C0 (Guid c)"
    and rest: "LoadModel_Definitions comps (C0 @ [(Guid c, c)]) = Inr C"
    by (auto simp add: Add_def split: if_splits)
  from new Cons.prems(2) have "distinct (map fst (C0 @ [(Guid c, c)]))"
    by (simp add: ContainsKey_def)
  with rest show ?case by (rule Cons.IH)
qed

lemma LoadModel_Definitions_distinct:
  "distinct (map Guid comps) \<Longrightarrow> Guid ` set comps \<inter> Keys C0 = {} \<Longrightarrow>
   LoadModel_Definitions comps C0 = Inr (C0 @ dictionary_of comps)"
proof (induction comps arbitrary: C0)
  case Nil
  then show ?case by (simp add: dictionary_of_def)
next
  case (Cons c comps)
  from Cons.prems have "\<not> ContainsKey C0 (Guid c)" by (auto simp add: ContainsKey_Keys)
  moreover from Cons.prems have "Guid ` set comps \<inter> Keys (C0 @ [(Guid c, c)]) = {}"
    by (auto simp add: Keys_def)
  with Cons.IH [of "C0 @ [(Guid c, c)]"] Cons.prems(1)
  have "LoadModel_Definitions comps (C0 @ [(Guid c, c)])
      = Inr ((C0 @ [(Guid c, c)]) @ dictionary_of comps)" by simp
  ultimately show ?case by (simp add: Add_def dictionary_of_def)
qed

lemma Keys_dictionary_of: "Keys (dictionary_of comps) = Guid ` set comps"
  by (auto simp add: Keys_def dictionary_of_def image_iff)

lemma keys_dictionary_of: "map fst (dictionary_of comps) = map Guid comps"
  by (simp add: dictionary_of_def comp_def)

lemma Instances_of_dictionary_of:
  assumes "var \<in> set (Instances_of (dictionary_of comps) g)"
  shows "\<exists>c \<in> set comps. Guid c = g \<and> var \<in> set (Component.Instances c)"
proof (cases "map_of (dictionary_of comps) g")
  case None
  with assms show ?thesis by (simp add: Instances_of_def)
next
  case (Some c)
  from map_of_SomeD [OF Some] have "c \<in> set comps" "Guid c = g"
    by (auto simp add: dictionary_of_def)
  with assms Some show ?thesis by (auto simp add: Instances_of_def)
qed

lemma acyclic_file_by:
  "acyclic_file rank file \<Longrightarrow> acyclic_by rank (dictionary_of (su_definitions file))"
  unfolding acyclic_file_def acyclic_by_def Keys_dictionary_of
  by (metis Instances_of_dictionary_of)

lemma Instances_of_entry:
  assumes "distinct (map fst C)" and "e \<in> set C"
  shows "Instances_of C (fst e) = Component.Instances (snd e)"
proof -
  from assms have "map_of C (fst e) = Some (snd e)" by (cases e) simp
  then show ?thesis by (simp add: Instances_of_def)
qed

lemma cyclic_file_in:
  assumes "cyclic_file S file" and "distinct (map Guid (su_definitions file))"
  shows "cycle_in S (dictionary_of (su_definitions file))"
proof -
  let ?C = "dictionary_of (su_definitions file)"
  have d: "distinct (map fst ?C)" using assms(2) by (simp add: keys_dictionary_of)
  have "\<exists>var \<in> set (Instances_of ?C g). ParentID var \<in> S" if "g \<in> S" for g
  proof -
    from that assms(1) obtain c where c: "c \<in> set (su_definitions file)" "Guid c = g"
      unfolding cyclic_file_def by auto
    then have "(g, c) \<in> set ?C" by (auto simp add: dictionary_of_def)
    from Instances_of_entry [OF d this] have "Instances_of ?C g = Component.Instances c" by simp
    with c that assms(1) show ?thesis unfolding cyclic_file_def by auto
  qed
  with assms(1) show ?thesis
    unfolding cycle_in_def cyclic_file_def Keys_dictionary_of by blast
qed

lemma LoadModel_eq:
  "LoadModel depth file inh this =
     (case LoadModel_Materials (su_materials file) [] of
        Inl e \<Rightarrow> Inl e
      | Inr M \<Rightarrow>
          (case LoadModel_Definitions (su_definitions file) [] of
             Inl e \<Rightarrow> Inl e
           | Inr C \<Rightarrow>
               (case LoadModel_FixRefs depth inh (extracted file M C this) of
                  Inl e \<Rightarrow> Inl e
                | Inr (this7, log) \<Rightarrow>
                    Inr \<lparr>returned = True, object = this7, api_calls = load_calls\<rparr>)))"
  by (simp add: LoadModel_def Let_def fold_snoc extracted_def load_calls_def
      split: sum.splits prod.splits)

lemma extracted_sel:
  "Components (extracted file M C this) = C"
  "SketchUp.Groups (extracted file M C this) = su_groups file"
  "SketchUp.Instances (extracted file M C this) = su_instances file"
  by (simp_all add: extracted_def)

lemma LoadModel_Instances_links:
  "\<forall>var \<in> set (LoadModel_Instances C insts). linked_to_definition (Keys C) var"
  by (auto simp add: LoadModel_Instances_def linked_to_definition_def ContainsKey_Keys)

lemma LoadModel_FixRefs_links:
  assumes "LoadModel_FixRefs d inh this = Inr (this', log)"
    and "distinct (map fst (Components this))"
  shows "fully_linked this'"
proof -
  let ?K = "Keys (Components this)"
  let ?I = "LoadModel_Instances (Components this) (SketchUp.Instances this)"
  from assms(1) obtain C1 l1 C2 G l2 where
    comps: "LoadModel_Components d (Components this) = Inr (C1, l1)"
    and groups: "LoadModel_Groups d inh (SketchUp.Groups this) C1 = Inr ((C2, G), l2)"
    and this': "this' = this\<lparr>SketchUp.Instances := ?I, Components := C2, SketchUp.Groups := G\<rparr>"
    by (auto simp add: LoadModel_FixRefs_def Let_def split: sum.splits prod.splits)
  have le01: "store_le (Components this) C1" using comps by (rule LoadModel_Components_le)
  have le12: "store_le C1 C2" using LoadModel_Groups_le [OF groups] by simp
  have k1: "Keys C1 = ?K" using le01 by (rule store_le_Keys)
  have k2: "Keys C2 = ?K" using le12 k1 by (simp add: store_le_Keys)
  have d2: "distinct (map fst C2)"
    using assms(2) store_le_keys [OF le01] store_le_keys [OF le12] by simp
  have "\<forall>var \<in> set (Component.Instances (snd e)). linked_to_definition ?K var"
    if e: "e \<in> set C2" for e
  proof -
    from e have "fst e \<in> ?K" unfolding k2 [symmetric] by (simp add: Keys_def)
    with LoadModel_Components_links [OF comps]
    have "\<forall>var \<in> set (Instances_of C1 (fst e)). linked_to_definition ?K var" by simp
    with store_le_Instances_of [OF le12, of "fst e"]
    have "\<forall>var \<in> set (Instances_of C2 (fst e)). linked_to_definition ?K var"
      unfolding k1 by (rule list_all2_keeps_all_linked)
    then show ?thesis using Instances_of_entry [OF d2 e] by simp
  qed
  moreover have "\<forall>grp \<in> set G. \<forall>var \<in> set (Group.Instances grp). linked_to_definition ?K var"
    using LoadModel_Groups_links [OF groups] k1 by simp
  ultimately show ?thesis
    using this' k2 LoadModel_Instances_links [of "Components this" "SketchUp.Instances this"]
    by (simp add: fully_linked_def)
qed

lemma LoadModel_FixRefs_returns:
  assumes "acyclic_by rank (Components this)"
    and "\<forall>g \<in> Keys (Components this). Suc (rank g) < d" and "0 < d"
  shows "\<exists>this' log. LoadModel_FixRefs d inh this = Inr (this', log)"
proof -
  from assms(2) have "\<forall>g \<in> Keys (Components this). rank g < d" by auto
  from LoadModel_Components_returns [OF assms(1) this]
  obtain C1 l1 where comps: "LoadModel_Components d (Components this) = Inr (C1, l1)" by blast
  have le: "store_le (Components this) C1" using comps by (rule LoadModel_Components_le)
  from LoadModel_Groups_returns [OF assms(2,3) assms(1) store_le_Keys [OF le] le]
  obtain C2 G l2 where "LoadModel_Groups d inh (SketchUp.Groups this) C1 = Inr ((C2, G), l2)"
    by blast
  with comps show ?thesis by (simp add: LoadModel_FixRefs_def)
qed

lemma LoadModel_FixRefs_overflows:
  assumes "cycle_in S (Components this)" and "S \<noteq> {}"
  shows "LoadModel_FixRefs d inh this = Inl StackOverflowException"
  using LoadModel_Components_overflows [OF assms, of d]
  by (simp add: LoadModel_FixRefs_def)

lemma LoadModel_returns_linked:
  assumes "distinct (map Guid (su_definitions file))" and "acyclic_file rank file"
    and "0 < depth" and "\<forall>c \<in> set (su_definitions file). Suc (rank (Guid c)) < depth"
  shows "\<exists>run. LoadModel depth file inh this = Inr run \<and> returned run \<and> fully_linked (object run)"
proof -
  let ?C = "dictionary_of (su_definitions file)"
  obtain M where M: "LoadModel_Materials (su_materials file) [] = Inr M"
    using LoadModel_Materials_aux [of "[]" "su_materials file"] by auto
  have defs: "LoadModel_Definitions (su_definitions file) [] = Inr ?C"
    using LoadModel_Definitions_distinct [OF assms(1), of "[]"] by (simp add: Keys_def)
  let ?this6 = "extracted file M ?C this"
  have "acyclic_by rank (Components ?this6)"
    using acyclic_file_by [OF assms(2)] by (simp add: extracted_sel)
  moreover have "\<forall>g \<in> Keys (Components ?this6). Suc (rank g) < depth"
    using assms(4) by (simp add: Keys_dictionary_of extracted_sel)
  ultimately obtain this7 log where
    linked_run: "LoadModel_FixRefs depth inh ?this6 = Inr (this7, log)"
    using LoadModel_FixRefs_returns [of rank ?this6 depth inh] assms(3) by blast
  have "distinct (map fst (Components ?this6))"
    using assms(1) by (simp add: keys_dictionary_of extracted_sel)
  from LoadModel_FixRefs_links [OF linked_run this] have "fully_linked this7" .
  with M defs linked_run show ?thesis by (simp add: LoadModel_eq)
qed

lemma LoadModel_overflows:
  assumes "distinct (map Guid (su_definitions file))" and "cyclic_file S file"
  shows "LoadModel depth file inh this = Inl StackOverflowException"
proof -
  let ?C = "dictionary_of (su_definitions file)"
  obtain M where M: "LoadModel_Materials (su_materials file) [] = Inr M"
    using LoadModel_Materials_aux [of "[]" "su_materials file"] by auto
  have defs: "LoadModel_Definitions (su_definitions file) [] = Inr ?C"
    using LoadModel_Definitions_distinct [OF assms(1), of "[]"] by (simp add: Keys_def)
  let ?this6 = "extracted file M ?C this"
  from assms(2) have "S \<noteq> {}" by (simp add: cyclic_file_def)
  moreover have "cycle_in S (Components ?this6)"
    using cyclic_file_in [OF assms(2,1)] by (simp add: extracted_sel)
  ultimately have "LoadModel_FixRefs depth inh ?this6 = Inl StackOverflowException"
    by (intro LoadModel_FixRefs_overflows)
  with M defs show ?thesis by (simp add: LoadModel_eq)
qed

text \<open>
  C1 (as amended). First conjunct: for a file whose definitions have distinct identifiers
  and form an acyclic graph, and a stack with room for the nesting depth, \<^verbatim>\<open>LoadModel\<close>
  returns true and the object is fully linked: every top-level instance, every instance
  of a definition and every instance owned by a top-level group whose \<open>ParentID\<close> is a
  key of \<open>Components\<close> has that definition as its \<open>Parent\<close>. Second conjunct: no set of
  processed definitions is kept, so for a file whose definitions contain a cycle
  \<^verbatim>\<open>LoadModel\<close> does not return: it ends in a stack overflow at every depth.
\<close>

theorem LoadModel_links_acyclic_overflows_cyclic:
  "(distinct (map Guid (su_definitions file)) \<and> acyclic_file rank file
      \<and> 0 < depth \<and> (\<forall>c \<in> set (su_definitions file). Suc (rank (Guid c)) < depth)
    \<longrightarrow> (\<exists>run. LoadModel depth file inheritGroupMaterials this = Inr run
           \<and> returned run \<and> fully_linked (object run)))
   \<and> (distinct (map Guid (su_definitions file)) \<and> cyclic_file S file
    \<longrightarrow> LoadModel depth file inheritGroupMaterials this = Inl StackOverflowException)"
  using LoadModel_returns_linked [of "file" rank depth inheritGroupMaterials this]
    LoadModel_overflows [of "file" S depth inheritGroupMaterials this]
  by blast

lemma example_file_acyclic:
  "distinct (map Guid (su_definitions (example_file st)))
   \<and> acyclic_file example_rank (example_file st)
   \<and> (\<forall>c \<in> set (su_definitions (example_file st)). Suc (example_rank (Guid c)) < 3)"
  by (simp add: example_defs acyclic_file_def example_rank_def)

lemma cyclic_example_cyclic:
  "distinct (map Guid (su_definitions cyclic_example))
   \<and> cyclic_file {''A'', ''B''} cyclic_example"
  by (simp add: example_defs cyclic_example_def cyclic_file_def)

theorem LoadModel_links_acyclic_overflows_cyclic_witness:
  "LoadModel 3 (example_file SUModelLoadStatus_Success) True blank =
     Inr \<lparr>returned = True, object = example_loaded False, api_calls = load_calls\<rparr>
   \<and> fully_linked (example_loaded False)
   \<and> cyclic_file {''A'', ''B''} cyclic_example
   \<and> LoadModel 3 cyclic_example True blank = Inl StackOverflowException"
  using LoadModel_links_acyclic_overflows_cyclic
    [of "example_file SUModelLoadStatus_Success" example_rank 3 True blank "{''A'', ''B''}"]
    LoadModel_links_acyclic_overflows_cyclic
    [of cyclic_example example_rank 3 True blank "{''A'', ''B''}"]
    example_file_acyclic [of SUModelLoadStatus_Success] cyclic_example_cyclic
  by (simp add: example_file_loads)

text \<open>
  The claim C1 as stated fails on the graph it names: with definition \<open>A\<close> owning an
  instance that names \<open>B\<close> and \<open>B\<close> owning one that names \<open>A\<close>, \<^verbatim>\<open>LoadModel\<close>
  overflows the stack however deep it is.
\<close>

theorem LoadModel_cyclic_never_returns:
  "LoadModel 4 cyclic_example False blank = Inl StackOverflowException
   \<and> (\<forall>depth inheritGroupMaterials.
        LoadModel depth cyclic_example inheritGroupMaterials blank = Inl StackOverflowException)"
  using cyclic_example_cyclic LoadModel_overflows by blast

subsection \<open>Running the pass twice\<close>

lemma example_extracted_acyclic:
  "acyclic_by example_rank (Components example_extracted)
   \<and> (\<forall>g \<in> Keys (Components example_extracted). Suc (example_rank g) < 3)"
  by (simp add: example_extracted_def acyclic_by_def Keys_def Instances_of_def
      definition_of_def inst_def example_rank_def)

lemma cyclic_object_cycle:
  "cycle_in {''A'', ''B''} (Components cyclic_object)"
  by (simp add: cyclic_object_def blank_def cycle_in_def Keys_def Instances_of_def
      definition_of_def inst_def)

text \<open>
  C5 (as amended). The Resolver is the linking pass of \<^verbatim>\<open>LoadModel\<close> (the loops of lines
  233 to 253, calling \<^verbatim>\<open>FixRefs\<close> for every definition and every top-level group, with
  or without \<^verbatim>\<open>FixMaterialRefs\<close>). First conjunct: if a pass returns an object, then run
  again on that object it returns the very same object, links and material slots alike.
  Second conjunct: on an acyclic definition graph, with a stack that has room for its
  nesting depth, the pass does return, and so does the second pass, with the same object.
  Third conjunct: on a definition graph with a cycle the first pass does not return, so
  there is no state to run a second pass on. Fourth conjunct: \<^verbatim>\<open>FixMaterialRefs\<close>
  applied to its own result changes nothing, for every group tree.
\<close>

theorem resolver_and_propagator_idempotent:
  "(LoadModel_FixRefs depth inheritGroupMaterials this = Inr (this', log)
      \<longrightarrow> LoadModel_FixRefs depth inheritGroupMaterials this' = Inr (this', log))
   \<and> (acyclic_by rank (Components this) \<and> 0 < depth
        \<and> (\<forall>g \<in> Keys (Components this). Suc (rank g) < depth)
      \<longrightarrow> (\<exists>this' log. LoadModel_FixRefs depth inheritGroupMaterials this = Inr (this', log)
             \<and> LoadModel_FixRefs depth inheritGroupMaterials this' = Inr (this', log)))
   \<and> (cycle_in S (Components this) \<and> S \<noteq> {}
      \<longrightarrow> LoadModel_FixRefs depth inheritGroupMaterials this = Inl StackOverflowException)
   \<and> FixMaterialRefs (FixMaterialRefs grp) = FixMaterialRefs grp"
proof (intro conjI impI)
  assume "LoadModel_FixRefs depth inheritGroupMaterials this = Inr (this', log)"
  then show "LoadModel_FixRefs depth inheritGroupMaterials this' = Inr (this', log)"
    by (rule LoadModel_FixRefs_fixed)
next
  assume a: "acyclic_by rank (Components this) \<and> 0 < depth
        \<and> (\<forall>g \<in> Keys (Components this). Suc (rank g) < depth)"
  then obtain this1 log1 where
    r: "LoadModel_FixRefs depth inheritGroupMaterials this = Inr (this1, log1)"
    using LoadModel_FixRefs_returns [of rank this depth inheritGroupMaterials] by blast
  from LoadModel_FixRefs_fixed [OF r] r
  show "\<exists>this' log. LoadModel_FixRefs depth inheritGroupMaterials this = Inr (this', log)
             \<and> LoadModel_FixRefs depth inheritGroupMaterials this' = Inr (this', log)"
    by blast
next
  assume "cycle_in S (Components this) \<and> S \<noteq> {}"
  then show "LoadModel_FixRefs depth inheritGroupMaterials this = Inl StackOverflowException"
    using LoadModel_FixRefs_overflows [of S this depth inheritGroupMaterials] by blast
next
  show "FixMaterialRefs (FixMaterialRefs grp) = FixMaterialRefs grp"
    by (rule FixMaterialRefs_idem)
qed

theorem resolver_and_propagator_idempotent_witness:
  "LoadModel_FixRefs 3 True example_extracted =
     Inr (example_loaded False, [''A'', ''B'', ''B'', ''A'', ''B''])
   \<and> LoadModel_FixRefs 3 True (example_loaded False) =
     Inr (example_loaded False, [''A'', ''B'', ''B'', ''A'', ''B''])
   \<and> acyclic_by example_rank (Components example_extracted)
   \<and> cycle_in {''A'', ''B''} (Components cyclic_object)
   \<and> LoadModel_FixRefs 3 True cyclic_object = Inl StackOverflowException
   \<and> FixMaterialRefs (FixMaterialRefs example_group) = FixMaterialRefs example_group"
  using resolver_and_propagator_idempotent [of 3 True example_extracted "example_loaded False"
      "[''A'', ''B'', ''B'', ''A'', ''B'']" example_rank "{''A'', ''B''}" example_group]
    resolver_and_propagator_idempotent [of 3 True cyclic_object "example_loaded False"
      "[]" example_rank "{''A'', ''B''}" example_group]
    example_extracted_acyclic cyclic_object_cycle
  by (simp add: example_extracted_links)

text \<open>
  The claim C5 as stated, for every scene graph, fails on the object whose definition
  \<open>A\<close> owns an instance naming \<open>B\<close> and whose definition \<open>B\<close> owns one naming \<open>A\<close>:
  the first pass overflows the stack however deep it is, with or without material
  inheritance, so no state after a first run exists and no second run takes place.
\<close>

theorem resolver_cyclic_never_returns:
  "LoadModel_FixRefs 4 False cyclic_object = Inl StackOverflowException
   \<and> (\<forall>depth inheritGroupMaterials.
        LoadModel_FixRefs depth inheritGroupMaterials cyclic_object
          = Inl StackOverflowException)"
  using cyclic_object_cycle LoadModel_FixRefs_overflows [of "{''A'', ''B''}" cyclic_object]
  by simp

subsection \<open>Instances that name no definition\<close>

lemma link_step_unmatched_kept: "link_step K old new \<Longrightarrow> unmatched_kept K old new"
  by (auto simp add: link_step_def unmatched_kept_def)

lemma list_all2_unmatched_kept:
  "list_all2 (link_step K) old new \<Longrightarrow> list_all2 (unmatched_kept K) old new"
  by (erule list_all2_mono) (rule link_step_unmatched_kept)

lemma LoadModel_unmatched_kept:
  assumes "LoadModel depth file inh this = Inr run"
  shows "returned run
    \<and> list_all2 (unmatched_kept (Guid ` set (su_definitions file)))
         (su_instances file) (SketchUp.Instances (object run))
    \<and> list_all2 (\<lambda>c e. fst e = Guid c
           \<and> list_all2 (unmatched_kept (Guid ` set (su_definitions file)))
                (Component.Instances c) (Component.Instances (snd e)))
         (su_definitions file) (Components (object run))
    \<and> list_all2 (\<lambda>g g'. list_all2 (unmatched_kept (Guid ` set (su_definitions file)))
           (all_Instances g) (all_Instances g'))
         (su_groups file) (SketchUp.Groups (object run))"
proof -
  let ?K = "Guid ` set (su_definitions file)"
  let ?C = "dictionary_of (su_definitions file)"
  from assms obtain M C this7 log where
    M: "LoadModel_Materials (su_materials file) [] = Inr M"
    and C: "LoadModel_Definitions (su_definitions file) [] = Inr C"
    and linked_run: "LoadModel_FixRefs depth inh (extracted file M C this) = Inr (this7, log)"
    and run: "run = \<lparr>returned = True, object = this7, api_calls = load_calls\<rparr>"
    by (auto simp add: LoadModel_eq split: sum.splits prod.splits)
  from LoadModel_Definitions_Inr [OF C] have C_eq: "C = ?C" by simp
  have K: "Keys ?C = ?K" by (rule Keys_dictionary_of)
  let ?I = "LoadModel_Instances ?C (su_instances file)"
  from linked_run obtain C1 l1 C2 G l2 where
    comps: "LoadModel_Components depth ?C = Inr (C1, l1)"
    and groups: "LoadModel_Groups depth inh (su_groups file) C1 = Inr ((C2, G), l2)"
    and this7: "SketchUp.Instances this7 = ?I" "Components this7 = C2" "SketchUp.Groups this7 = G"
    by (auto simp add: LoadModel_FixRefs_def Let_def extracted_sel C_eq
        split: sum.splits prod.splits)
  have le01: "store_le ?C C1" using comps by (rule LoadModel_Components_le)
  note g = LoadModel_Groups_le [OF groups]
  have k1: "Keys C1 = ?K" using le01 K by (simp add: store_le_Keys)
  have "store_le ?C C2" using le01 g by (blast intro: store_le_trans)
  then have "list_all2 (entry_le ?K) ?C C2" by (simp add: store_le_def entries_le_def K)
  then have "list_all2 (\<lambda>c e. fst e = Guid c
           \<and> list_all2 (unmatched_kept ?K) (Component.Instances c) (Component.Instances (snd e)))
         (su_definitions file) C2"
    by (simp add: dictionary_of_def list_all2_map1 entry_le_def)
       (erule list_all2_mono, simp add: list_all2_unmatched_kept)
  moreover have "list_all2 (unmatched_kept ?K) (su_instances file) ?I"
    using LoadModel_Instances_link_step [of ?C "su_instances file"]
    by (simp add: K list_all2_unmatched_kept)
  moreover have "list_all2 (\<lambda>g g'. list_all2 (unmatched_kept ?K) (all_Instances g) (all_Instances g'))
         (su_groups file) G"
  proof -
    from g have "list_all2 (\<lambda>g g'. list_all2 (link_step ?K) (all_Instances g) (all_Instances g'))
         (su_groups file) G" unfolding k1 by simp
    then show ?thesis by (rule list_all2_mono) (rule list_all2_unmatched_kept)
  qed
  ultimately show ?thesis using run this7 by simp
qed

text \<open>
  C6. First conjunct: whenever \<^verbatim>\<open>LoadModel\<close> returns, it returns true, and every
  instance whose \<open>ParentID\<close> is no key of \<open>Components\<close> is exactly as the extraction
  delivered it, so its \<open>Parent\<close> is still null: the top-level instances, the instances of
  every definition, and the instances anywhere in a group tree, position by position.
  Second conjunct: such instances do not keep the load from returning; a file with
  distinct identifiers and an acyclic definition graph loads, given enough stack.
\<close>

theorem LoadModel_unmatched_ParentID_is_no_error:
  "(LoadModel depth file inheritGroupMaterials this = Inr run
    \<longrightarrow> returned run
      \<and> list_all2 (unmatched_kept (Guid ` set (su_definitions file)))
           (su_instances file) (SketchUp.Instances (object run))
      \<and> list_all2 (\<lambda>c e. fst e = Guid c
             \<and> list_all2 (unmatched_kept (Guid ` set (su_definitions file)))
                  (Component.Instances c) (Component.Instances (snd e)))
           (su_definitions file) (Components (object run))
      \<and> list_all2 (\<lambda>g g'. list_all2 (unmatched_kept (Guid ` set (su_definitions file)))
             (all_Instances g) (all_Instances g'))
           (su_groups file) (SketchUp.Groups (object run)))
   \<and> (distinct (map Guid (su_definitions file)) \<and> acyclic_file rank file
      \<and> 0 < depth \<and> (\<forall>c \<in> set (su_definitions file). Suc (rank (Guid c)) < depth)
    \<longrightarrow> (\<exists>run. LoadModel depth file inheritGroupMaterials this = Inr run))"
  using LoadModel_unmatched_kept [of depth "file" inheritGroupMaterials this run]
    LoadModel_returns_linked [of "file" rank depth inheritGroupMaterials this]
  by blast

theorem LoadModel_unmatched_ParentID_is_no_error_witness:
  "LoadModel 3 (example_file SUModelLoadStatus_Success) True blank =
     Inr \<lparr>returned = True, object = example_loaded False, api_calls = load_calls\<rparr>
   \<and> su_instances (example_file SUModelLoadStatus_Success) ! 1 = inst ''Z''
   \<and> ''Z'' \<notin> Guid ` set (su_definitions (example_file SUModelLoadStatus_Success))
   \<and> SketchUp.Instances (example_loaded False) ! 1 = inst ''Z''
   \<and> Parent (inst ''Z'') = None
   \<and> list_all2 (unmatched_kept (Guid ` set (su_definitions (example_file SUModelLoadStatus_Success))))
        (su_instances (example_file SUModelLoadStatus_Success))
        (SketchUp.Instances (example_loaded False))"
  using LoadModel_unmatched_ParentID_is_no_error
    [of 3 "example_file SUModelLoadStatus_Success" True blank
      "\<lparr>returned = True, object = example_loaded False, api_calls = load_calls\<rparr>" example_rank]
    example_file_acyclic [of SUModelLoadStatus_Success]
  by (simp add: example_file_loads) (simp add: example_defs)

subsection \<open>The object after a load\<close>

lemma link_step_resolve:
  "link_step K old new \<Longrightarrow> linked_to_definition K new \<Longrightarrow> new = resolve K old"
  by (cases old) (auto simp add: link_step_def linked_to_definition_def resolve_def)

lemma list_all2_resolve:
  "list_all2 (link_step K) olds news \<Longrightarrow> \<forall>v \<in> set news. linked_to_definition K v \<Longrightarrow>
   news = map (resolve K) olds"
  by (induction rule: list_all2_induct) (auto simp add: link_step_resolve)

lemma LoadModel_Instances_resolve:
  "LoadModel_Instances C insts = map (resolve (Keys C)) insts"
  by (simp add: LoadModel_Instances_def resolve_def ContainsKey_Keys)

lemma list_all2_map_eq:
  assumes "list_all2 R xs ys" and "\<And>x y. R x y \<Longrightarrow> y \<in> set ys \<Longrightarrow> y = f x"
  shows "ys = map f xs"
  using assms
proof (induction rule: list_all2_induct)
  case Nil
  show ?case by simp
next
  case (Cons x xs y ys)
  have "y = f x" by (rule Cons.prems) (simp_all add: Cons.hyps)
  moreover have "ys = map f xs" by (rule Cons.IH) (rule Cons.prems, simp_all)
  ultimately show ?case by simp
qed

lemma LoadModel_Groups_resolved:
  "LoadModel_Groups d inh gs C = Inr ((C', gs'), l) \<Longrightarrow>
   gs' = map (\<lambda>g. let g1 = Group (Group.Material g) (Group.Groups g) (Group.Surfaces g)
                       (map (resolve (Keys C)) (Group.Instances g))
                 in if inh then FixMaterialRefs g1 else g1) gs"
proof (induction gs arbitrary: C gs' l)
  case Nil
  then show ?case by simp
next
  case (Cons var rest)
  from Cons.prems obtain C1 var' l1 rest' l2 where
    head: "FixRefs_Group d C var = Inr ((C1, var'), l1)"
    and tail: "LoadModel_Groups d inh rest C1 = Inr ((C', rest'), l2)"
    and gs': "gs' = (if inh then FixMaterialRefs var' else var') # rest'"
    by (auto simp add: Let_def split: sum.splits prod.splits)
  note h = FixRefs_Group_le [OF head]
  from h have keys: "Keys C1 = Keys C" by (simp add: store_le_Keys)
  from h FixRefs_Group_links [OF head]
  have "Group.Instances var' = map (resolve (Keys C)) (Group.Instances var)"
    by (simp add: list_all2_resolve)
  with h have "var' = Group (Group.Material var) (Group.Groups var) (Group.Surfaces var)
      (map (resolve (Keys C)) (Group.Instances var))"
    by (cases var') simp
  with Cons.IH [OF tail] keys gs' show ?case by (simp add: Let_def)
qed

lemma LoadModel_Components_resolved:
  assumes "store_le (dictionary_of comps) C2" and "distinct (map Guid comps)"
    and "\<forall>e \<in> set C2. \<forall>var \<in> set (Component.Instances (snd e)).
           linked_to_definition (Guid ` set comps) var"
  shows "C2 = map (\<lambda>c. (Guid c, c\<lparr>Component.Instances :=
            map (resolve (Guid ` set comps)) (Component.Instances c)\<rparr>)) comps"
proof -
  let ?K = "Guid ` set comps"
  from assms(1) have "list_all2 (entry_le ?K) (dictionary_of comps) C2"
    by (simp add: store_le_def entries_le_def Keys_dictionary_of)
  then have "list_all2 (\<lambda>c e. entry_le ?K (Guid c, c) e) comps C2"
    by (simp add: dictionary_of_def list_all2_map1)
  then show ?thesis
  proof (rule list_all2_map_eq)
    fix c e
    assume le: "entry_le ?K (Guid c, c) e" and e: "e \<in> set C2"
    from le have "list_all2 (link_step ?K) (Component.Instances c) (Component.Instances (snd e))"
      by (simp add: entry_le_def)
    moreover from e assms(3)
    have "\<forall>var \<in> set (Component.Instances (snd e)). linked_to_definition ?K var" by blast
    ultimately have "Component.Instances (snd e) = map (resolve ?K) (Component.Instances c)"
      by (rule list_all2_resolve)
    then have "snd e = c\<lparr>Component.Instances := map (resolve ?K) (Component.Instances c)\<rparr>"
      using le by (intro Component.equality) (simp_all add: entry_le_def)
    moreover from le have "fst e = Guid c" by (simp add: entry_le_def)
    ultimately show "e = (Guid c, c\<lparr>Component.Instances :=
            map (resolve ?K) (Component.Instances c)\<rparr>)"
      by (simp add: prod_eq_iff)
  qed
qed

lemma LoadModel_flag_only:
  assumes "LoadModel depth file inh this = Inr run"
  shows "LoadModel depth (file\<lparr>load_status := SUModelLoadStatus_Success\<rparr>) inh this =
             Inr (run\<lparr>object := (object run)\<lparr>MoreRecentFileVersion := False\<rparr>\<rparr>)"
  using assms
  by (auto simp add: LoadModel_def LoadModel_FixRefs_def Let_def
       split: sum.splits prod.splits)

lemma LoadModel_populated:
  assumes "LoadModel depth file inh this = Inr run"
  shows "returned run
    \<and> MoreRecentFileVersion (object run) =
        (load_status file = SUModelLoadStatus_Success_MoreRecent)
    \<and> Layers (object run) = su_layers file
    \<and> SketchUp.Surfaces (object run) = su_surfaces file
    \<and> Curves (object run) = su_curves file
    \<and> Edges (object run) = su_edges file
    \<and> distinct (map fst (Materials (object run)))
    \<and> (\<forall>n. map_of (Materials (object run)) n = find (\<lambda>m. Name m = n) (su_materials file))
    \<and> SketchUp.Instances (object run) =
        map (resolve (Guid ` set (su_definitions file))) (su_instances file)
    \<and> Components (object run) =
        map (\<lambda>c. (Guid c, c\<lparr>Component.Instances :=
               map (resolve (Guid ` set (su_definitions file))) (Component.Instances c)\<rparr>))
          (su_definitions file)
    \<and> SketchUp.Groups (object run) =
        map (\<lambda>g. let g1 = Group (Group.Material g) (Group.Groups g) (Group.Surfaces g)
                       (map (resolve (Guid ` set (su_definitions file))) (Group.Instances g))
                 in if inh then FixMaterialRefs g1 else g1) (su_groups file)"
proof -
  let ?K = "Guid ` set (su_definitions file)"
  let ?C = "dictionary_of (su_definitions file)"
  from assms obtain M C this7 log where
    M: "LoadModel_Materials (su_materials file) [] = Inr M"
    and C: "LoadModel_Definitions (su_definitions file) [] = Inr C"
    and linked_run: "LoadModel_FixRefs depth inh (extracted file M C this) = Inr (this7, log)"
    and run: "run = \<lparr>returned = True, object = this7, api_calls = load_calls\<rparr>"
    by (auto simp add: LoadModel_eq split: sum.splits prod.splits)
  from LoadModel_Definitions_Inr [OF C] have C_eq: "C = ?C" by simp
  from LoadModel_Definitions_Inr_distinct [OF C] have dC: "distinct (map fst ?C)"
    by (simp add: C_eq)
  then have dG: "distinct (map Guid (su_definitions file))" by (simp add: keys_dictionary_of)
  have K: "Keys ?C = ?K" by (rule Keys_dictionary_of)
  from LoadModel_Materials_aux [of "[]" "su_materials file"] M
  have mats: "distinct (map fst M)"
    "\<forall>n. map_of M n = find (\<lambda>m. Name m = n) (su_materials file)" by auto
  let ?I = "LoadModel_Instances ?C (su_instances file)"
  from linked_run obtain C1 l1 C2 G l2 where
    comps: "LoadModel_Components depth ?C = Inr (C1, l1)"
    and groups: "LoadModel_Groups depth inh (su_groups file) C1 = Inr ((C2, G), l2)"
    and this7: "this7 = (extracted file M ?C this)
        \<lparr>SketchUp.Instances := ?I, Components := C2, SketchUp.Groups := G\<rparr>"
    by (auto simp add: LoadModel_FixRefs_def Let_def extracted_sel C_eq
        split: sum.splits prod.splits)
  have le01: "store_le ?C C1" using comps by (rule LoadModel_Components_le)
  have k1: "Keys C1 = ?K" using le01 K by (simp add: store_le_Keys)
  have le02: "store_le ?C C2"
    using le01 LoadModel_Groups_le [OF groups] by (blast intro: store_le_trans)
  have "distinct (map fst (Components (extracted file M C this)))"
    using dC by (simp add: extracted_sel C_eq)
  from LoadModel_FixRefs_links [OF linked_run this]
  have "\<forall>e \<in> set C2. \<forall>var \<in> set (Component.Instances (snd e)). linked_to_definition ?K var"
    by (simp add: fully_linked_def this7 store_le_Keys [OF le02] K)
  with le02 dG have C2: "C2 = map (\<lambda>c. (Guid c, c\<lparr>Component.Instances :=
            map (resolve ?K) (Component.Instances c)\<rparr>)) (su_definitions file)"
    by (rule LoadModel_Components_resolved)
  from LoadModel_Groups_resolved [OF groups]
  have G: "G = map (\<lambda>g. let g1 = Group (Group.Material g) (Group.Groups g) (Group.Surfaces g)
                       (map (resolve ?K) (Group.Instances g))
                 in if inh then FixMaterialRefs g1 else g1) (su_groups file)"
    by (simp add: k1)
  have I: "?I = map (resolve ?K) (su_instances file)"
    by (simp add: LoadModel_Instances_resolve K)
  show ?thesis
    unfolding run this7 using mats C2 G I by (simp add: extracted_def)
qed

text \<open>
  C7. First conjunct: whenever \<^verbatim>\<open>LoadModel\<close> returns, it returns true,
  \<open>MoreRecentFileVersion\<close> is true exactly when the status delivered by the library is
  \<^verbatim>\<open>SUModelLoadStatus_Success_MoreRecent\<close>, and the object holds every table of the
  file: its layers, surfaces, curves and edges as delivered; one material per name, the
  first of that name; its top-level instances, each linked to the definition it names if
  there is one; its definitions in order under their identifiers, their instances linked
  likewise; its groups in order, their own instances linked likewise and their materials
  inherited when that was asked for. The object is the one a load of the same tables with
  status success produces, apart from the flag. Second conjunct: a file with distinct
  identifiers and an acyclic definition graph does load, given enough stack, whatever its
  status.
\<close>

theorem LoadModel_MoreRecentFileVersion:
  "(LoadModel depth file inheritGroupMaterials this = Inr run
    \<longrightarrow> returned run
      \<and> MoreRecentFileVersion (object run) =
          (load_status file = SUModelLoadStatus_Success_MoreRecent)
      \<and> Layers (object run) = su_layers file
      \<and> SketchUp.Surfaces (object run) = su_surfaces file
      \<and> Curves (object run) = su_curves file
      \<and> Edges (object run) = su_edges file
      \<and> distinct (map fst (Materials (object run)))
      \<and> (\<forall>n. map_of (Materials (object run)) n = find (\<lambda>m. Name m = n) (su_materials file))
      \<and> SketchUp.Instances (object run) =
          map (resolve (Guid ` set (su_definitions file))) (su_instances file)
      \<and> Components (object run) =
          map (\<lambda>c. (Guid c, c\<lparr>Component.Instances :=
                 map (resolve (Guid ` set (su_definitions file))) (Component.Instances c)\<rparr>))
            (su_definitions file)
      \<and> SketchUp.Groups (object run) =
          map (\<lambda>g. let g1 = Group (Group.Material g) (Group.Groups g) (Group.Surfaces g)
                         (map (resolve (Guid ` set (su_definitions file))) (Group.Instances g))
                   in if inheritGroupMaterials then FixMaterialRefs g1 else g1) (su_groups file)
      \<and> LoadModel depth (file\<lparr>load_status := SUModelLoadStatus_Success\<rparr>)
            inheritGroupMaterials this =
          Inr (run\<lparr>object := (object run)\<lparr>MoreRecentFileVersion := False\<rparr>\<rparr>))
   \<and> (distinct (map Guid (su_definitions file)) \<and> acyclic_file rank file
      \<and> 0 < depth \<and> (\<forall>c \<in> set (su_definitions file). Suc (rank (Guid c)) < depth)
    \<longrightarrow> (\<exists>run. LoadModel depth file inheritGroupMaterials this = Inr run))"
  using LoadModel_populated [of depth "file" inheritGroupMaterials this run]
    LoadModel_flag_only [of depth "file" inheritGroupMaterials this run]
    LoadModel_returns_linked [of "file" rank depth inheritGroupMaterials this]
  by blast

text \<open>
  The example file loaded with status \<^verbatim>\<open>SUModelLoadStatus_Success_MoreRecent\<close> and with
  status success: the flag is true, then false, and the graph is the same.
\<close>

theorem LoadModel_MoreRecentFileVersion_witness:
  "LoadModel 3 (example_file SUModelLoadStatus_Success_MoreRecent) True blank =
     Inr \<lparr>returned = True, object = example_loaded True, api_calls = load_calls\<rparr>
   \<and> MoreRecentFileVersion (example_loaded True)
   \<and> LoadModel 3 (example_file SUModelLoadStatus_Success) True blank =
     Inr \<lparr>returned = True, object = example_loaded False, api_calls = load_calls\<rparr>
   \<and> \<not> MoreRecentFileVersion (example_loaded False)
   \<and> Layers (example_loaded True) = [Layer 0]
   \<and> Curves (example_loaded True) = [Curve 0]
   \<and> Edges (example_loaded True) = [Edge 0, Edge 1]
   \<and> map fst (Materials (example_loaded True)) = [''Wood'', ''Steel'']
   \<and> SketchUp.Instances (example_loaded True) = [linked ''B'', inst ''Z'']
   \<and> map fst (Components (example_loaded True)) = [''A'', ''B'']
   \<and> length (SketchUp.Groups (example_loaded True)) = 1"
proof -
  let ?file = "example_file SUModelLoadStatus_Success_MoreRecent"
  have run: "LoadModel 3 ?file True blank =
     Inr \<lparr>returned = True, object = example_loaded True, api_calls = load_calls\<rparr>"
    by (simp add: example_file_loads)
  have same: "?file\<lparr>load_status := SUModelLoadStatus_Success\<rparr>
      = example_file SUModelLoadStatus_Success"
    by (simp add: example_file_def)
  from LoadModel_MoreRecentFileVersion
    [of 3 ?file True blank
      "\<lparr>returned = True, object = example_loaded True, api_calls = load_calls\<rparr>" example_rank]
    run example_file_acyclic [of SUModelLoadStatus_Success_MoreRecent]
  show ?thesis
    by (simp add: same) (simp add: example_defs)
qed

subsection \<open>How often a definition is expanded\<close>

text \<open>
  The list returned beside the store holds one entry per activation of
  \<^verbatim>\<open>FixRefs(Component^)\<close>. An activation for \<open>g\<close> contributes \<open>g\<close> itself and, for
  each instance of \<open>g\<close> that names a key, the activations of that definition
  (\<open>FixRefs_flow\<close>).
\<close>

lemma count_list_distinct: "distinct xs \<Longrightarrow> x \<in> set xs \<Longrightarrow> count_list xs x = 1"
  by (induction xs) auto

lemma sum_list_indicator:
  "sum_list (map (\<lambda>x. if P x then 1 else 0) xs) = length (filter P xs)"
  by (induction xs) simp_all

lemma sum_list_indicator_nth:
  "sum_list (map (\<lambda>i. if P (xs ! i) then 1 else 0) [0..<length xs]) = length (filter P xs)"
proof -
  have "map (\<lambda>i. if P (xs ! i) then 1 else (0::nat)) [0..<length xs]
      = map (\<lambda>x. if P x then 1 else 0) xs"
    by (rule nth_equalityI) simp_all
  then show ?thesis by (simp add: sum_list_indicator)
qed

lemma sum_list_count: "sum_list (map (\<lambda>k. if k = c then 1 else 0) ks) = count_list ks c"
  by (induction ks) simp_all

lemma refs_store_le: "store_le C C' \<Longrightarrow> refs C' g c = refs C g c"
proof -
  assume "store_le C C'"
  then have "map ParentID (Instances_of C' g) = map ParentID (Instances_of C g)"
    by (rule store_le_ParentIDs)
  then have "filter (\<lambda>k. k = c) (map ParentID (Instances_of C' g))
      = filter (\<lambda>k. k = c) (map ParentID (Instances_of C g))" by simp
  then have "length (filter ((\<lambda>k. k = c) \<circ> ParentID) (Instances_of C' g))
      = length (filter ((\<lambda>k. k = c) \<circ> ParentID) (Instances_of C g))"
    unfolding filter_map by (metis length_map)
  then show ?thesis by (simp add: refs_def comp_def)
qed

lemma foreach_sum:
  fixes F G :: "string list \<Rightarrow> nat"
  assumes "foreach xs body s = Inr (s', l)" and "I s"
    and F: "F [] = 0" "\<And>a b. F (a @ b) = F a + F b"
    and G: "G [] = 0" "\<And>a b. G (a @ b) = G a + G b"
    and step: "\<And>x s s' l. x \<in> set xs \<Longrightarrow> I s \<Longrightarrow> body x s = Inr (s', l)
        \<Longrightarrow> I s' \<and> F l = a x + G l"
  shows "F l = sum_list (map a xs) + G l"
  using assms(1,2) step
proof (induction xs arbitrary: s l)
  case Nil
  then show ?case using F(1) G(1) by simp
next
  case (Cons x xs)
  from Cons.prems(1) obtain s1 l1 l2 where
    first: "body x s = Inr (s1, l1)" and rest: "foreach xs body s1 = Inr (s', l2)"
    and l: "l = l1 @ l2"
    by (auto split: sum.splits prod.splits)
  from Cons.prems(3) [of x s s1 l1] Cons.prems(2) first
  have inv: "I s1" and one: "F l1 = a x + G l1" by simp_all
  have "F l2 = sum_list (map a xs) + G l2"
  proof (rule Cons.IH [OF rest inv])
    fix y t t' m
    assume "y \<in> set xs" "I t" "body y t = Inr (t', m)"
    then show "I t' \<and> F m = a y + G m" using Cons.prems(3) [of y t t' m] by simp
  qed
  with one l show ?case by (simp add: F(2) G(2))
qed

lemma FixRefs_flow:
  "FixRefs d C g = Inr (C', log) \<Longrightarrow> c \<in> Keys C \<Longrightarrow>
   count_list log c = (if c = g then 1 else 0) + sum_list (map (\<lambda>h. refs C h c) log)"
proof (induction d arbitrary: C g C' log)
  case 0
  then show ?case by simp
next
  case (Suc d)
  let ?n = "length (Instances_of C g)"
  let ?a = "\<lambda>i. if ParentID (Instances_of C g ! i) = c then 1 else (0::nat)"
  from Suc.prems(1) obtain l' where
    run: "foreach [0..<?n] (FixRefs_body d g) C = Inr (C', l')" and log: "log = g # l'"
    by (auto simp add: FixRefs_Suc simp del: FixRefs.simps split: sum.splits prod.splits)
  have "count_list l' c = sum_list (map ?a [0..<?n]) + sum_list (map (\<lambda>h. refs C h c) l')"
  proof (rule foreach_sum [where I = "store_le C" and F = "\<lambda>l. count_list l c"
        and G = "\<lambda>l. sum_list (map (\<lambda>h. refs C h c) l)", OF run])
    show "store_le C C" by (rule store_le_refl)
  next
    fix i s s' m
    assume i: "i \<in> set [0..<?n]" and inv: "store_le C s"
      and step: "FixRefs_body d g i s = Inr (s', m)"
    let ?k = "ParentID (Instances_of s g ! i)"
    have k: "?k = ParentID (Instances_of C g ! i)"
      using store_le_ParentID_nth [OF inv, of i g] i by simp
    have keys: "Keys s = Keys C" using inv by (rule store_le_Keys)
    have "count_list m c = ?a i + sum_list (map (\<lambda>h. refs C h c) m)"
    proof (cases "ContainsKey s ?k")
      case True
      with step have call: "FixRefs d (set_Parent s g i ?k) ?k = Inr (s', m)"
        by (simp add: FixRefs_body_def Let_def)
      have le: "store_le C (set_Parent s g i ?k)"
        using inv store_le_set_Parent [OF True] by (rule store_le_trans)
      from Suc.IH [OF call] Suc.prems(2) keys
      have "count_list m c = (if c = ?k then 1 else 0)
          + sum_list (map (\<lambda>h. refs (set_Parent s g i ?k) h c) m)"
        by (simp add: Keys_set_Parent)
      then have "count_list m c = (if c = ?k then 1 else 0)
          + sum_list (map (\<lambda>h. refs C h c) m)"
        by (simp only: refs_store_le [OF le])
      then show ?thesis using k by auto
    next
      case False
      with step have "m = []" by (simp add: FixRefs_body_def Let_def)
      moreover from False keys Suc.prems(2) have "?k \<noteq> c" by (auto simp add: ContainsKey_Keys)
      ultimately show ?thesis using k by simp
    qed
    with inv FixRefs_body_store_le [OF step]
    show "store_le C s' \<and> count_list m c = ?a i + sum_list (map (\<lambda>h. refs C h c) m)"
      by (blast intro: store_le_trans)
  qed simp_all
  moreover have "sum_list (map ?a [0..<?n]) = refs C g c"
    using sum_list_indicator_nth [of "\<lambda>var. ParentID var = c" "Instances_of C g"]
    by (simp add: refs_def)
  ultimately show ?case using log by simp
qed

lemma LoadModel_Components_flow:
  assumes "LoadModel_Components d C = Inr (C', log)" and "c \<in> Keys C"
  shows "count_list log c = count_list (map fst C) c + sum_list (map (\<lambda>h. refs C h c) log)"
proof -
  have "count_list log c = sum_list (map (\<lambda>k. if k = c then 1 else 0) (map fst C))
      + sum_list (map (\<lambda>h. refs C h c) log)"
  proof (rule foreach_sum [where I = "store_le C" and F = "\<lambda>l. count_list l c"
        and G = "\<lambda>l. sum_list (map (\<lambda>h. refs C h c) l)",
        OF assms(1) [unfolded LoadModel_Components_def]])
    show "store_le C C" by (rule store_le_refl)
  next
    fix k s s' m
    assume inv: "store_le C s" and step: "FixRefs d s k = Inr (s', m)"
    from FixRefs_flow [OF step, of c] assms(2) store_le_Keys [OF inv]
    have "count_list m c = (if k = c then 1 else 0) + sum_list (map (\<lambda>h. refs C h c) m)"
      by (auto simp add: refs_store_le [OF inv])
    with inv FixRefs_store_le [OF step]
    show "store_le C s' \<and> count_list m c = (if k = c then 1 else 0)
        + sum_list (map (\<lambda>h. refs C h c) m)"
      by (blast intro: store_le_trans)
  qed simp_all
  then show ?thesis by (simp only: sum_list_count)
qed

lemma link_step_ParentIDs:
  "list_all2 (link_step K) old new \<Longrightarrow> map ParentID new = map ParentID old"
  by (induction rule: list_all2_induct) (simp_all add: link_step_ParentID)

lemma FixRefs_Group_flow:
  assumes "FixRefs_Group d C grp = Inr ((C', grp'), log)" and "c \<in> Keys C"
  shows "count_list log c = group_refs grp c + sum_list (map (\<lambda>h. refs C h c) log)"
proof (cases d)
  case 0
  with assms show ?thesis by simp
next
  case (Suc d')
  let ?n = "length (Group.Instances grp)"
  let ?a = "\<lambda>i. if ParentID (Group.Instances grp ! i) = c then 1 else (0::nat)"
  let ?I = "\<lambda>p. store_le C (fst p)
      \<and> map ParentID (Group.Instances (snd p)) = map ParentID (Group.Instances grp)"
  from assms(1) Suc have
    run: "foreach [0..<?n] (FixRefs_Group_body d') (C, grp) = Inr ((C', grp'), log)"
    by (simp add: FixRefs_Group_Suc del: FixRefs_Group.simps)
  have "count_list log c = sum_list (map ?a [0..<?n]) + sum_list (map (\<lambda>h. refs C h c) log)"
  proof (rule foreach_sum [where I = ?I and F = "\<lambda>l. count_list l c"
        and G = "\<lambda>l. sum_list (map (\<lambda>h. refs C h c) l)", OF run])
    show "?I (C, grp)" by (simp add: store_le_refl)
  next
    fix i p p' m
    assume i: "i \<in> set [0..<?n]" and inv: "?I p"
      and step: "FixRefs_Group_body d' i p = Inr (p', m)"
    obtain s h s' h' where p: "p = (s, h)" "p' = (s', h')" by (cases p, cases p') auto
    note body = FixRefs_Group_body_le [OF step [unfolded p]]
    let ?k = "ParentID (Group.Instances h ! i)"
    from inv p have sC: "store_le C s"
      and ids: "map ParentID (Group.Instances h) = map ParentID (Group.Instances grp)"
      by simp_all
    have keys: "Keys s = Keys C" using sC by (rule store_le_Keys)
    from ids have "length (Group.Instances h) = ?n" by (metis length_map)
    with i ids have k: "?k = ParentID (Group.Instances grp ! i)"
      by (metis atLeastLessThan_iff nth_map set_upt)
    have "count_list m c = ?a i + sum_list (map (\<lambda>h. refs C h c) m)"
    proof (cases "ContainsKey s ?k")
      case True
      with step p have call: "FixRefs d' s ?k = Inr (s', m)"
        by (auto simp add: FixRefs_Group_body_def Let_def split: sum.splits prod.splits)
      from FixRefs_flow [OF call, of c] assms(2) keys
      have "count_list m c = (if c = ?k then 1 else 0) + sum_list (map (\<lambda>h. refs s h c) m)"
        by simp
      then have "count_list m c = (if c = ?k then 1 else 0) + sum_list (map (\<lambda>h. refs C h c) m)"
        by (simp only: refs_store_le [OF sC])
      then show ?thesis using k by auto
    next
      case False
      with step p have "m = []" by (simp add: FixRefs_Group_body_def Let_def)
      moreover from False keys assms(2) have "?k \<noteq> c" by (auto simp add: ContainsKey_Keys)
      ultimately show ?thesis using k by simp
    qed
    moreover have "?I p'"
      using body(1,2) sC ids p link_step_ParentIDs [OF body(2)]
      by (auto intro: store_le_trans)
    ultimately show "?I p' \<and> count_list m c = ?a i + sum_list (map (\<lambda>h. refs C h c) m)"
      by simp
  qed simp_all
  moreover have "sum_list (map ?a [0..<?n]) = group_refs grp c"
    using sum_list_indicator_nth [of "\<lambda>var. ParentID var = c" "Group.Instances grp"]
    by (simp add: group_refs_def)
  ultimately show ?thesis by simp
qed

lemma LoadModel_Groups_flow:
  "LoadModel_Groups d inh gs C0 = Inr ((C', gs'), log) \<Longrightarrow> store_le C C0 \<Longrightarrow> c \<in> Keys C \<Longrightarrow>
   count_list log c = sum_list (map (\<lambda>grp. group_refs grp c) gs)
     + sum_list (map (\<lambda>h. refs C h c) log)"
proof (induction gs arbitrary: C0 gs' log)
  case Nil
  then show ?case by simp
next
  case (Cons var rest)
  from Cons.prems(1) obtain C1 var' l1 rest' l2 where
    head: "FixRefs_Group d C0 var = Inr ((C1, var'), l1)"
    and tail: "LoadModel_Groups d inh rest C1 = Inr ((C', rest'), l2)"
    and log: "log = l1 @ l2"
    by (auto simp add: Let_def split: sum.splits prod.splits)
  have keys: "Keys C0 = Keys C" using Cons.prems(2) by (rule store_le_Keys)
  from FixRefs_Group_flow [OF head, of c] Cons.prems(3) keys
  have "count_list l1 c = group_refs var c + sum_list (map (\<lambda>h. refs C0 h c) l1)" by simp
  then have one: "count_list l1 c = group_refs var c + sum_list (map (\<lambda>h. refs C h c) l1)"
    by (simp only: refs_store_le [OF Cons.prems(2)])
  have "store_le C C1"
    using Cons.prems(2) FixRefs_Group_le [OF head] by (blast intro: store_le_trans)
  from Cons.IH [OF tail this Cons.prems(3)] one log show ?case
    by simp
qed

lemma LoadModel_FixRefs_flow:
  assumes "LoadModel_FixRefs d inh this = Inr (this', log)"
    and "distinct (map fst (Components this))" and "ContainsKey (Components this) c"
  shows "count_list log c =
           1 + sum_list (map (\<lambda>grp. group_refs grp c) (SketchUp.Groups this))
             + sum_list (map (\<lambda>g. refs (Components this) g c) log)"
proof -
  let ?C = "Components this"
  from assms(1) obtain C1 l1 C2 G l2 where
    comps: "LoadModel_Components d ?C = Inr (C1, l1)"
    and groups: "LoadModel_Groups d inh (SketchUp.Groups this) C1 = Inr ((C2, G), l2)"
    and log: "log = l1 @ l2"
    by (auto simp add: LoadModel_FixRefs_def Let_def split: sum.splits prod.splits)
  from assms(3) have c: "c \<in> Keys ?C" by (simp add: ContainsKey_Keys)
  then have "c \<in> set (map fst ?C)" by (simp add: Keys_def)
  with assms(2) have "count_list (map fst ?C) c = 1" by (simp add: count_list_distinct)
  with LoadModel_Components_flow [OF comps c]
  have "count_list l1 c = 1 + sum_list (map (\<lambda>h. refs ?C h c) l1)" by simp
  moreover from LoadModel_Groups_flow [OF groups LoadModel_Components_le [OF comps] c]
  have "count_list l2 c = sum_list (map (\<lambda>grp. group_refs grp c) (SketchUp.Groups this))
      + sum_list (map (\<lambda>h. refs ?C h c) l2)" .
  ultimately show ?thesis using log by simp
qed

lemma sum_list_zero: "(\<forall>x \<in> set xs. f x = (0::nat)) \<Longrightarrow> sum_list (map f xs) = 0"
  by (induction xs) simp_all

lemma foreach_log_subset:
  assumes "foreach xs body s = Inr (s', l)" and "I s"
    and step: "\<And>x s s' l. x \<in> set xs \<Longrightarrow> I s \<Longrightarrow> body x s = Inr (s', l)
        \<Longrightarrow> I s' \<and> set l \<subseteq> K"
  shows "set l \<subseteq> K"
proof -
  have "length (filter (\<lambda>h. h \<notin> K) l) = sum_list (map (\<lambda>x. 0) xs) + (0::nat)"
  proof (rule foreach_sum [where I = I and F = "\<lambda>l. length (filter (\<lambda>h. h \<notin> K) l)"
        and G = "\<lambda>l. 0", OF assms(1,2)])
    fix x s s' l
    assume "x \<in> set xs" "I s" "body x s = Inr (s', l)"
    from step [OF this] have "I s'" and "filter (\<lambda>h. h \<notin> K) l = []"
      by (auto simp add: filter_empty_conv)
    then show "I s' \<and> length (filter (\<lambda>h. h \<notin> K) l) = 0 + 0" by simp
  qed simp_all
  then have "filter (\<lambda>h. h \<notin> K) l = []" by simp
  then show ?thesis by (auto simp add: filter_empty_conv)
qed

lemma FixRefs_log_keys:
  "FixRefs d C g = Inr (C', log) \<Longrightarrow> g \<in> Keys C \<Longrightarrow> set log \<subseteq> Keys C"
proof (induction d arbitrary: C g C' log)
  case 0
  then show ?case by simp
next
  case (Suc d)
  from Suc.prems(1) obtain l' where
    run: "foreach [0..<length (Instances_of C g)] (FixRefs_body d g) C = Inr (C', l')"
    and log: "log = g # l'"
    by (auto simp add: FixRefs_Suc simp del: FixRefs.simps split: sum.splits prod.splits)
  have "set l' \<subseteq> Keys C"
  proof (rule foreach_log_subset [where I = "\<lambda>s. Keys s = Keys C", OF run])
    show "Keys C = Keys C" by simp
  next
    fix i s s' m
    assume keys: "Keys s = Keys C" and step: "FixRefs_body d g i s = Inr (s', m)"
    let ?k = "ParentID (Instances_of s g ! i)"
    have "set m \<subseteq> Keys C"
    proof (cases "ContainsKey s ?k")
      case True
      with step have call: "FixRefs d (set_Parent s g i ?k) ?k = Inr (s', m)"
        by (simp add: FixRefs_body_def Let_def)
      from Suc.IH [OF call] True keys show ?thesis
        by (simp add: Keys_set_Parent ContainsKey_Keys)
    next
      case False
      with step show ?thesis by (simp add: FixRefs_body_def Let_def)
    qed
    with keys store_le_Keys [OF FixRefs_body_store_le [OF step]]
    show "Keys s' = Keys C \<and> set m \<subseteq> Keys C" by simp
  qed
  with log Suc.prems(2) show ?case by simp
qed

lemma LoadModel_Components_log_keys:
  assumes "LoadModel_Components d C = Inr (C', log)"
  shows "set log \<subseteq> Keys C"
proof (rule foreach_log_subset [where I = "\<lambda>s. Keys s = Keys C",
      OF assms [unfolded LoadModel_Components_def]])
  show "Keys C = Keys C" by simp
next
  fix g s s' m
  assume g: "g \<in> set (map fst C)" and keys: "Keys s = Keys C"
    and step: "FixRefs d s g = Inr (s', m)"
  from g keys have "g \<in> Keys s" by (simp add: Keys_def)
  from FixRefs_log_keys [OF step this] keys store_le_Keys [OF FixRefs_store_le [OF step]]
  show "Keys s' = Keys C \<and> set m \<subseteq> Keys C" by simp
qed

lemma FixRefs_Group_log_keys:
  assumes "FixRefs_Group d C grp = Inr ((C', grp'), log)"
  shows "set log \<subseteq> Keys C"
proof (cases d)
  case 0
  with assms show ?thesis by simp
next
  case (Suc d')
  with assms have
    run: "foreach [0..<length (Group.Instances grp)] (FixRefs_Group_body d') (C, grp)
      = Inr ((C', grp'), log)"
    by (simp add: FixRefs_Group_Suc del: FixRefs_Group.simps)
  show ?thesis
  proof (rule foreach_log_subset [where I = "\<lambda>p. Keys (fst p) = Keys C", OF run])
    show "Keys (fst (C, grp)) = Keys C" by simp
  next
    fix i and p p' :: "Component Dictionary \<times> Group" and m
    assume keys: "Keys (fst p) = Keys C" and step: "FixRefs_Group_body d' i p = Inr (p', m)"
    obtain s h s' h' where p: "p = (s, h)" "p' = (s', h')" by (cases p, cases p') auto
    note body = FixRefs_Group_body_le [OF step [unfolded p]]
    let ?k = "ParentID (Group.Instances h ! i)"
    have "set m \<subseteq> Keys C"
    proof (cases "ContainsKey s ?k")
      case True
      with step p have call: "FixRefs d' s ?k = Inr (s', m)"
        by (auto simp add: FixRefs_Group_body_def Let_def split: sum.splits prod.splits)
      from FixRefs_log_keys [OF call] True keys p show ?thesis by (simp add: ContainsKey_Keys)
    next
      case False
      with step p show ?thesis by (simp add: FixRefs_Group_body_def Let_def)
    qed
    with keys p store_le_Keys [OF body(1)]
    show "Keys (fst p') = Keys C \<and> set m \<subseteq> Keys C" by simp
  qed
qed

lemma LoadModel_Groups_log_keys:
  "LoadModel_Groups d inh gs C = Inr ((C', gs'), log) \<Longrightarrow> set log \<subseteq> Keys C"
proof (induction gs arbitrary: C gs' log)
  case Nil
  then show ?case by simp
next
  case (Cons var rest)
  from Cons.prems obtain C1 var' l1 rest' l2 where
    head: "FixRefs_Group d C var = Inr ((C1, var'), l1)"
    and tail: "LoadModel_Groups d inh rest C1 = Inr ((C', rest'), l2)"
    and log: "log = l1 @ l2"
    by (auto simp add: Let_def split: sum.splits prod.splits)
  have "Keys C1 = Keys C" using FixRefs_Group_le [OF head] by (simp add: store_le_Keys)
  with Cons.IH [OF tail] FixRefs_Group_log_keys [OF head] log show ?case by simp
qed

lemma LoadModel_FixRefs_log_keys:
  assumes "LoadModel_FixRefs d inh this = Inr (this', log)"
  shows "set log \<subseteq> Keys (Components this)"
proof -
  from assms obtain C1 l1 C2 G l2 where
    comps: "LoadModel_Components d (Components this) = Inr (C1, l1)"
    and groups: "LoadModel_Groups d inh (SketchUp.Groups this) C1 = Inr ((C2, G), l2)"
    and log: "log = l1 @ l2"
    by (auto simp add: LoadModel_FixRefs_def Let_def split: sum.splits prod.splits)
  have "Keys C1 = Keys (Components this)"
    using LoadModel_Components_le [OF comps] by (rule store_le_Keys)
  with LoadModel_Components_log_keys [OF comps] LoadModel_Groups_log_keys [OF groups] log
  show ?thesis by simp
qed

lemma shared_definition_thrice:
  assumes run: "LoadModel_FixRefs d inh this = Inr (this', log)"
    and d: "distinct (map fst (Components this))" and sh: "shared_by_two this a b c"
  shows "count_list log a = 1 \<and> count_list log b = 1 \<and> count_list log c = 3"
proof -
  let ?C = "Components this"
  note keys = LoadModel_FixRefs_log_keys [OF run]
  from sh have ka: "ContainsKey ?C a" and kb: "ContainsKey ?C b" and kc: "ContainsKey ?C c"
    and ga: "\<forall>grp \<in> set (SketchUp.Groups this). group_refs grp a = 0"
    and gb: "\<forall>grp \<in> set (SketchUp.Groups this). group_refs grp b = 0"
    and gc: "\<forall>grp \<in> set (SketchUp.Groups this). group_refs grp c = 0"
    by (simp_all add: shared_by_two_def)
  from sh keys have ra: "\<forall>g \<in> set log. refs ?C g a = 0"
    and rb: "\<forall>g \<in> set log. refs ?C g b = 0"
    and rc: "\<forall>g \<in> set log. refs ?C g c = (if g = a then 1 else 0) + (if g = b then 1 else 0)"
    by (auto simp add: shared_by_two_def)
  have a: "count_list log a = 1"
    using LoadModel_FixRefs_flow [OF run d ka]
    by (simp add: sum_list_zero [OF ra] sum_list_zero [OF ga])
  have b: "count_list log b = 1"
    using LoadModel_FixRefs_flow [OF run d kb]
    by (simp add: sum_list_zero [OF rb] sum_list_zero [OF gb])
  have "map (\<lambda>g. refs ?C g c) log
      = map (\<lambda>g. (if g = a then 1 else 0) + (if g = b then 1 else 0)) log"
    using rc by simp
  then have "sum_list (map (\<lambda>g. refs ?C g c) log)
      = sum_list (map (\<lambda>g. (if g = a then 1 else 0) + (if g = b then 1 else 0)) log)"
    by (simp only:)
  also have "\<dots> = count_list log a + count_list log b"
    by (simp add: sum_list_addf sum_list_count)
  finally have "sum_list (map (\<lambda>g. refs ?C g c) log) = count_list log a + count_list log b" .
  with LoadModel_FixRefs_flow [OF run d kc] a b show ?thesis
    by (simp add: sum_list_zero [OF gc])
qed

text \<open>
  C2 (as amended). First conjunct: in a linking pass that returns, the instance list of a
  definition \<open>c\<close> is expanded once for its own entry in \<open>Components\<close>, once for every
  instance naming \<open>c\<close> that a top-level group owns, and once for every instance naming
  \<open>c\<close> in a definition each time that definition is expanded. Nothing is skipped for
  having been expanded before. Second conjunct: where two distinct definitions \<open>A\<close> and
  \<open>B\<close> each own one instance naming \<open>C\<close> and nothing else names any of the three, the
  list of \<open>C\<close> is expanded three times, whatever the order of the entries.
\<close>

theorem FixRefs_expansions_counted:
  assumes "LoadModel_FixRefs depth inheritGroupMaterials this = Inr (this', log)"
    and "distinct (map fst (Components this))"
  shows "(ContainsKey (Components this) c \<longrightarrow>
           count_list log c =
             1 + sum_list (map (\<lambda>grp. group_refs grp c) (SketchUp.Groups this))
               + sum_list (map (\<lambda>g. refs (Components this) g c) log))
         \<and> (shared_by_two this A B C \<longrightarrow> count_list log C = 3)"
  using LoadModel_FixRefs_flow [OF assms, of c] shared_definition_thrice [OF assms, of A B C]
  by simp

lemma diamond_links:
  "LoadModel_FixRefs 2 False (diamond [''A'', ''B'', ''C'']) =
     Inr (diamond_linked [''A'', ''B'', ''C''], [''A'', ''C'', ''B'', ''C'', ''C''])"
  "LoadModel_FixRefs 2 False (diamond [''B'', ''A'', ''C'']) =
     Inr (diamond_linked [''B'', ''A'', ''C''], [''B'', ''C'', ''A'', ''C'', ''C''])"
  "LoadModel_FixRefs 2 False (diamond [''C'', ''A'', ''B'']) =
     Inr (diamond_linked [''C'', ''A'', ''B''], [''C'', ''A'', ''C'', ''B'', ''C''])"
  by (simp_all add: diamond_def diamond_linked_def example_defs LoadModel_defs numeral_2_eq_2)

lemma diamond_shared:
  "distinct (map fst (Components (diamond [''A'', ''B'', ''C''])))
   \<and> shared_by_two (diamond [''A'', ''B'', ''C'']) ''A'' ''B'' ''C''"
  by (simp add: diamond_def blank_def shared_by_two_def ContainsKey_def Keys_def refs_def
      Instances_of_def definition_of_def inst_def)

theorem FixRefs_expansions_counted_witness:
  "LoadModel_FixRefs 2 False (diamond [''A'', ''B'', ''C'']) =
     Inr (diamond_linked [''A'', ''B'', ''C''], [''A'', ''C'', ''B'', ''C'', ''C''])
   \<and> distinct (map fst (Components (diamond [''A'', ''B'', ''C''])))
   \<and> ContainsKey (Components (diamond [''A'', ''B'', ''C''])) ''C''
   \<and> shared_by_two (diamond [''A'', ''B'', ''C'']) ''A'' ''B'' ''C''
   \<and> count_list [''A'', ''C'', ''B'', ''C'', ''C''] ''C'' =
       1 + sum_list (map (\<lambda>grp. group_refs grp ''C'') (SketchUp.Groups (diamond [''A'', ''B'', ''C''])))
         + sum_list (map (\<lambda>g. refs (Components (diamond [''A'', ''B'', ''C''])) g ''C'')
             [''A'', ''C'', ''B'', ''C'', ''C''])
   \<and> count_list [''A'', ''C'', ''B'', ''C'', ''C''] ''C'' = 3"
proof -
  have k: "ContainsKey (Components (diamond [''A'', ''B'', ''C''])) ''C''"
    by (simp add: diamond_def blank_def ContainsKey_def)
  from FixRefs_expansions_counted [OF diamond_links(1), of "''C''" "''A''" "''B''" "''C''"]
    diamond_shared k diamond_links(1)
  show ?thesis by simp
qed

text \<open>
  The claim C2 as stated fails on the graph it names: with \<open>A\<close> and \<open>B\<close> each owning
  one instance of \<open>C\<close>, one pass expands \<open>C\<close> three times, in each order of the entries.
\<close>

theorem FixRefs_expands_shared_definition_thrice:
  "LoadModel_FixRefs 2 False (diamond [''A'', ''B'', ''C'']) =
     Inr (diamond_linked [''A'', ''B'', ''C''], [''A'', ''C'', ''B'', ''C'', ''C''])
   \<and> LoadModel_FixRefs 2 False (diamond [''B'', ''A'', ''C'']) =
     Inr (diamond_linked [''B'', ''A'', ''C''], [''B'', ''C'', ''A'', ''C'', ''C''])
   \<and> LoadModel_FixRefs 2 False (diamond [''C'', ''A'', ''B'']) =
     Inr (diamond_linked [''C'', ''A'', ''B''], [''C'', ''A'', ''C'', ''B'', ''C''])
   \<and> count_list [''A'', ''C'', ''B'', ''C'', ''C''] ''C'' = 3
   \<and> count_list [''B'', ''C'', ''A'', ''C'', ''C''] ''C'' = 3
   \<and> count_list [''C'', ''A'', ''C'', ''B'', ''C''] ''C'' = 3"
  by (simp add: diamond_links)

end
